theory Spec2Isabelle
  imports Complex_Main
begin

section \<open>Numbers and vectors\<close>

text \<open>
  The C++ \<open>float\<close> (IEEE 754 binary32) is modelled by its value: a finite real number,
  one of the two infinities, or NaN. The result of an operation on finite values is
  brought into the range of the format as rounding to nearest does (\<open>ranged\<close>): a result
  of magnitude \<open>2\<^sup>1\<^sup>2\<^sup>8 - 2\<^sup>1\<^sup>0\<^sup>3\<close> or more becomes an infinity, one of magnitude at most
  \<open>2\<^sup>-\<^sup>1\<^sup>5\<^sup>0\<close>, half the smallest subnormal, becomes zero. Between these bounds the exact
  result is kept: the rounding of the significand to 24 bits is left out. The special
  values follow IEEE 754. Zero carries no sign; a zero divisor counts as \<open>+0\<close>, which is
  what the only divisor of the program, a sum of two squares, can be.
\<close>

datatype flt = Fin real | PInf | NInf | NaN

definition ranged :: "real \<Rightarrow> flt" where
  "ranged x =
     (if 2 ^ 128 - 2 ^ 103 \<le> \<bar>x\<bar> then (if x < 0 then NInf else PInf)
      else if \<bar>x\<bar> \<le> 1 / 2 ^ 150 then Fin 0
      else Fin x)"

fun isneg :: "flt \<Rightarrow> bool" where
  "isneg (Fin a) = (a < 0)"
| "isneg NInf = True"
| "isneg PInf = False"
| "isneg NaN = False"

fun iszero :: "flt \<Rightarrow> bool" where
  "iszero (Fin a) = (a = 0)"
| "iszero PInf = False"
| "iszero NInf = False"
| "iszero NaN = False"

fun fadd :: "flt \<Rightarrow> flt \<Rightarrow> flt" where
  "fadd NaN y = NaN"
| "fadd x NaN = NaN"
| "fadd (Fin a) (Fin b) = ranged (a + b)"
| "fadd PInf NInf = NaN"
| "fadd NInf PInf = NaN"
| "fadd PInf y = PInf"
| "fadd NInf y = NInf"
| "fadd (Fin a) y = y"

fun fneg :: "flt \<Rightarrow> flt" where
  "fneg (Fin a) = Fin (- a)"
| "fneg PInf = NInf"
| "fneg NInf = PInf"
| "fneg NaN = NaN"

definition fsub :: "flt \<Rightarrow> flt \<Rightarrow> flt" where
  "fsub x y = fadd x (fneg y)"

fun fmul :: "flt \<Rightarrow> flt \<Rightarrow> flt" where
  "fmul NaN y = NaN"
| "fmul x NaN = NaN"
| "fmul (Fin a) (Fin b) = ranged (a * b)"
| "fmul x y = (if iszero x \<or> iszero y then NaN
               else if isneg x = isneg y then PInf else NInf)"

fun fdiv :: "flt \<Rightarrow> flt \<Rightarrow> flt" where
  "fdiv NaN y = NaN"
| "fdiv x NaN = NaN"
| "fdiv (Fin a) (Fin b) =
     (if b = 0 then (if a = 0 then NaN else if 0 < a then PInf else NInf)
      else ranged (a / b))"
| "fdiv (Fin a) y = Fin 0"
| "fdiv x (Fin b) = (if isneg x = (b < 0) then PInf else NInf)"
| "fdiv x y = NaN"

fun fle :: "flt \<Rightarrow> flt \<Rightarrow> bool" where
  "fle NaN y = False"
| "fle x NaN = False"
| "fle (Fin a) (Fin b) = (a \<le> b)"
| "fle NInf y = True"
| "fle x PInf = True"
| "fle x y = False"

fun fless :: "flt \<Rightarrow> flt \<Rightarrow> bool" where
  "fless NaN y = False"
| "fless x NaN = False"
| "fless (Fin a) (Fin b) = (a < b)"
| "fless PInf y = False"
| "fless x NInf = False"
| "fless x y = True"

text \<open>\<open>sf::Vector2f\<close> and its operators, all componentwise.\<close>

type_synonym vec = "flt \<times> flt"

definition vzero :: vec where
  "vzero = (Fin 0, Fin 0)"

definition vadd :: "vec \<Rightarrow> vec \<Rightarrow> vec" where
  "vadd u v = (fadd (fst u) (fst v), fadd (snd u) (snd v))"

definition vsub :: "vec \<Rightarrow> vec \<Rightarrow> vec" where
  "vsub u v = (fsub (fst u) (fst v), fsub (snd u) (snd v))"

definition vmul :: "vec \<Rightarrow> flt \<Rightarrow> vec" where
  "vmul u c = (fmul (fst u) c, fmul (snd u) c)"

definition smul :: "flt \<Rightarrow> vec \<Rightarrow> vec" where
  "smul c u = (fmul c (fst u), fmul c (snd u))"

definition vdiv :: "vec \<Rightarrow> flt \<Rightarrow> vec" where
  "vdiv u c = (fdiv (fst u) c, fdiv (snd u) c)"

section \<open>Data model\<close>

definition MAX_BATCH_VERTS :: int where
  "MAX_BATCH_VERTS = 1000"

text \<open>
  \<open>sf::Vertex\<close>: a position, a colour and texture coordinates. The program only ever
  uses the default colour and the yellow of a spawned particle.
\<close>

datatype colour = White | Yellow

record vertex =
  position :: vec
  color :: colour
  texCoords :: vec

definition defaultVertex :: vertex where
  "defaultVertex = \<lparr>position = vzero, color = White, texCoords = vzero\<rparr>"

text \<open>
  \<open>struct batch\<close>: four parallel \<open>std::array\<close>s of \<open>MAX_BATCH_VERTS\<close> elements and the
  number of live slots. An array is a list; that it has exactly \<open>MAX_BATCH_VERTS\<close>
  elements is part of \<open>wf_batch\<close> below. Indexing an array outside its range is
  undefined in C++; it does not happen while the population lies within the array, which
  is what \<open>wf_batch\<close> says and what the statements about the contents of a batch assume.
\<close>

record batch =
  vertices :: "vertex list"
  oldPositions :: "vec list"
  velocities :: "vec list"
  acceleration :: "vec list"
  population :: int

definition newBatch :: batch where
  "newBatch = \<lparr>vertices = replicate (nat MAX_BATCH_VERTS) defaultVertex,
               oldPositions = replicate (nat MAX_BATCH_VERTS) vzero,
               velocities = replicate (nat MAX_BATCH_VERTS) vzero,
               acceleration = replicate (nat MAX_BATCH_VERTS) vzero,
               population = 0\<rparr>"

record gField =
  origin :: vec
  intensity :: flt

text \<open>
  \<open>struct world\<close>. The rectangle \<open>bounds\<close> is only ever asked whether it contains a
  point (\<open>sf::FloatRect::contains\<close>, library code), so it is kept as that predicate.
\<close>

record world =
  bounds :: "vec \<Rightarrow> bool"
  particles :: "batch list"
  gravFields :: "gField list"

text \<open>
  A rectangle given by corner and size, as \<open>sf::FloatRect::contains\<close> tests it
  (\<open>std::min\<close> and \<open>std::max\<close> order the edges): the lower edges belong to it, the
  upper ones do not.
\<close>

definition fmin :: "flt \<Rightarrow> flt \<Rightarrow> flt" where
  "fmin a b = (if fless b a then b else a)"

definition fmax :: "flt \<Rightarrow> flt \<Rightarrow> flt" where
  "fmax a b = (if fless a b then b else a)"

definition rectContains :: "flt \<Rightarrow> flt \<Rightarrow> flt \<Rightarrow> flt \<Rightarrow> vec \<Rightarrow> bool" where
  "rectContains rleft rtop rwidth rheight p =
     (let minX = fmin rleft (fadd rleft rwidth);
          maxX = fmax rleft (fadd rleft rwidth);
          minY = fmin rtop (fadd rtop rheight);
          maxY = fmax rtop (fadd rtop rheight)
      in fle minX (fst p) \<and> fless (fst p) maxX \<and> fle minY (snd p) \<and> fless (snd p) maxY)"

text \<open>
  The state the functions work on: the world and the global \<open>particleCounter\<close>.
  \<open>spawnParticle\<close> receives the batch vector alone.
\<close>

type_synonym state = "world \<times> int"

section \<open>Spawning\<close>

text \<open>
  \<open>spawnParticle\<close>, on the batch vector and the global counter. The slot index \<open>N\<close> is
  the population of the last batch, or 0 in a batch just added; the acceleration array is
  not written. A negative population, which no well-formed batch has, would index before
  the arrays.
\<close>

definition spawnParticle :: "vec \<Rightarrow> vec \<Rightarrow> batch list \<times> int \<Rightarrow> batch list \<times> int" where
  "spawnParticle pos vel s =
     (let batches = fst s;
          batches = (if batches = [] then batches @ [newBatch] else batches);
          N = population (last batches);
          (batches, N) = (if N \<ge> MAX_BATCH_VERTS then (batches @ [newBatch], 0)
                          else (batches, N));
          b = last batches;
          b = b\<lparr>vertices := (vertices b)[nat N :=
                  \<lparr>position = pos, color = Yellow, texCoords = vzero\<rparr>]\<rparr>;
          b = b\<lparr>oldPositions := (oldPositions b)[nat N := pos]\<rparr>;
          b = b\<lparr>velocities := (velocities b)[nat N := vel]\<rparr>;
          b = b\<lparr>population := population b + 1\<rparr>
      in (butlast batches @ [b], snd s + 1))"

section \<open>The update pass\<close>

text \<open>The force loop over \<open>env.gravFields\<close>, starting from a zero vector.\<close>

definition fieldForce :: "vec \<Rightarrow> gField \<Rightarrow> vec" where
  "fieldForce p g =
     (let r = vsub (origin g) p;
          r2 = fadd (fmul (fst r) (fst r)) (fmul (snd r) (snd r))
      in vmul (vdiv r r2) (intensity g))"

definition totalGForce :: "gField list \<Rightarrow> vec \<Rightarrow> vec" where
  "totalGForce gs p = foldl (\<lambda>tot g. vadd tot (fieldForce p g)) vzero gs"

text \<open>The branch for a particle inside the bounds; \<open>h\<close> is \<open>dt.asSeconds()\<close>.\<close>

definition integrate :: "gField list \<Rightarrow> flt \<Rightarrow> nat \<Rightarrow> batch \<Rightarrow> batch" where
  "integrate gs h i b =
     (let v = vertices b ! i;
          p = vadd (position v)
                (vadd (vmul (velocities b ! i) h) (vmul (vmul (acceleration b ! i) h) h));
          b = b\<lparr>vertices := (vertices b)[i := v\<lparr>position := p\<rparr>]\<rparr>;
          totalG = totalGForce gs p;
          b = b\<lparr>velocities := (velocities b)[i :=
                 vadd (velocities b ! i)
                   (vmul (smul (Fin (1/2)) (vadd (acceleration b ! i) totalG)) h)]\<rparr>
      in b\<lparr>acceleration := (acceleration b)[i := totalG]\<rparr>)"

text \<open>The loop \<open>for (int m = i; m < population; m++)\<close> that closes the gap.\<close>

definition shiftStep :: "nat \<Rightarrow> batch \<Rightarrow> batch" where
  "shiftStep m b =
     (let b = b\<lparr>vertices := (vertices b)[m := vertices b ! (m + 1)]\<rparr>
      in b\<lparr>velocities := (velocities b)[m := velocities b ! (m + 1)]\<rparr>)"

definition shiftDown :: "nat \<Rightarrow> batch \<Rightarrow> batch" where
  "shiftDown i b = fold shiftStep [i ..< nat (population b)] b"

text \<open>The branch for a particle outside the bounds.\<close>

definition remove :: "nat \<Rightarrow> batch \<times> int \<Rightarrow> batch \<times> int" where
  "remove i s =
     (let b = (fst s)\<lparr>population := population (fst s) - 1\<rparr>;
          pc = snd s - 1
      in (shiftDown i b, pc))"

definition stepAt :: "(vec \<Rightarrow> bool) \<Rightarrow> gField list \<Rightarrow> flt \<Rightarrow> nat \<Rightarrow> batch \<times> int \<Rightarrow> batch \<times> int" where
  "stepAt bnd gs h i s =
     (if bnd (position (vertices (fst s) ! i)) then (integrate gs h i (fst s), snd s)
      else remove i s)"

text \<open>
  The loop \<open>for (int i = population - 1; i >= 0; i--)\<close>: \<open>scan n\<close> runs the body for
  \<open>i = n - 1\<close> down to \<open>0\<close>. The start index is read once, before the first removal.
\<close>

fun scan :: "(vec \<Rightarrow> bool) \<Rightarrow> gField list \<Rightarrow> flt \<Rightarrow> nat \<Rightarrow> batch \<times> int \<Rightarrow> batch \<times> int" where
  "scan bnd gs h 0 s = s"
| "scan bnd gs h (Suc i) s = scan bnd gs h i (stepAt bnd gs h i s)"

definition updateBatch :: "(vec \<Rightarrow> bool) \<Rightarrow> gField list \<Rightarrow> flt \<Rightarrow> batch \<times> int \<Rightarrow> batch \<times> int" where
  "updateBatch bnd gs h s = scan bnd gs h (nat (population (fst s))) s"

text \<open>The body of \<open>for (int j = START; j < END; j++)\<close>, on batch \<open>j\<close> of the world.\<close>

definition processBatch :: "flt \<Rightarrow> nat \<Rightarrow> state \<Rightarrow> state" where
  "processBatch h j s =
     (let env = fst s;
          r = updateBatch (bounds env) (gravFields env) h (particles env ! j, snd s)
      in (env\<lparr>particles := (particles env)[j := fst r]\<rparr>, snd r))"

text \<open>
  The range of batch indices of the worker with index \<open>tid\<close> (\<open>id\<close> in the source) among \<open>T\<close> workers
  (\<open>T = std::thread::hardware_concurrency()\<close>) for \<open>M\<close> batches.
\<close>

definition STEP :: "nat \<Rightarrow> nat \<Rightarrow> nat" where
  "STEP T M = M div T"

definition START :: "nat \<Rightarrow> nat \<Rightarrow> nat \<Rightarrow> nat" where
  "START T M tid = STEP T M * tid"

definition END :: "nat \<Rightarrow> nat \<Rightarrow> nat \<Rightarrow> nat" where
  "END T M tid = (if int tid = int T - 1 then M else STEP T M * (tid + 1))"

text \<open>
  \<open>update(env, id)\<close>. With \<open>T = 0\<close> the division that computes the step is an integer
  division by zero: the result \<open>None\<close>. The signalling at the end of the function
  belongs to the thread protocol and is not part of the state.
\<close>

definition update :: "nat \<Rightarrow> flt \<Rightarrow> nat \<Rightarrow> state \<Rightarrow> state option" where
  "update T h tid s =
     (if T = 0 then None
      else let M = length (particles (fst s))
           in Some (fold (processBatch h) [START T M tid ..< END T M tid] s))"

text \<open>
  \<open>updateSystem\<close> starts one worker per index below \<open>T\<close> and waits for all of them. As a
  function it is the outcome of the workers run one after another, in the order a schedule
  \<open>ids\<close> lists them; \<open>updateSystem\<close> itself takes the order in which they are started. The
  threads, their interleaving and the wait of the caller are the step relation \<open>tstep\<close>
  below, for which the world of this function is the world of every run that has returned.
  The counter of this function is the counter of a run in which no two decrements of
  \<open>particleCounter\<close> race.
\<close>

fun runWorkers :: "nat \<Rightarrow> flt \<Rightarrow> nat list \<Rightarrow> state \<Rightarrow> state option" where
  "runWorkers T h [] s = Some s"
| "runWorkers T h (tid # ids) s =
     (case update T h tid s of None \<Rightarrow> None | Some s' \<Rightarrow> runWorkers T h ids s')"

definition updateSystem :: "nat \<Rightarrow> flt \<Rightarrow> state \<Rightarrow> state option" where
  "updateSystem T h s = runWorkers T h [0 ..< T] s"

text \<open>
  The reference the multi-threaded pass is compared with: one thread that processes
  every batch, in index order.
\<close>

definition sequentialPass :: "flt \<Rightarrow> state \<Rightarrow> state" where
  "sequentialPass h s = fold (processBatch h) [0 ..< length (particles (fst s))] s"

section \<open>The tick driver\<close>

text \<open>
  \<open>sf::Time\<close> counts whole microseconds in a 64-bit integer; \<open>dt\<close> is the tick in
  microseconds and \<open>h\<close> the same tick as \<open>dt.asSeconds()\<close>. The loop
  \<open>while (time >= dt)\<close> does not end for \<open>dt \<le> 0\<close>: not returning is \<open>None\<close>.
\<close>

partial_function (option) tickLoop :: "nat \<Rightarrow> flt \<Rightarrow> int \<Rightarrow> int \<Rightarrow> state \<Rightarrow> (int \<times> state) option" where
  "tickLoop T h dt time s =
     (if time \<ge> dt
      then Option.bind (updateSystem T h s) (\<lambda>s'. tickLoop T h dt (time - dt) s')
      else Some (time, s))"

definition tick :: "nat \<Rightarrow> flt \<Rightarrow> int \<Rightarrow> int \<Rightarrow> int \<times> state \<Rightarrow> (int \<times> state) option" where
  "tick T h dt delta ts = tickLoop T h dt (fst ts + delta) (snd ts)"

section \<open>Well-formed batches\<close>

definition wf_batch :: "batch \<Rightarrow> bool" where
  "wf_batch b \<longleftrightarrow>
     length (vertices b) = nat MAX_BATCH_VERTS \<and>
     length (oldPositions b) = nat MAX_BATCH_VERTS \<and>
     length (velocities b) = nat MAX_BATCH_VERTS \<and>
     length (acceleration b) = nat MAX_BATCH_VERTS \<and>
     0 \<le> population b \<and> population b \<le> MAX_BATCH_VERTS"

section \<open>Describing a pass\<close>

text \<open>
  What the loop that closes the gap does to one array: the elements at \<open>i + 1\<close> up to
  \<open>n\<close> move one index down.
\<close>

definition shl :: "nat \<Rightarrow> nat \<Rightarrow> 'a list \<Rightarrow> 'a list" where
  "shl i n xs = fold (\<lambda>m ys. ys[m := ys ! (m + 1)]) [i ..< n] xs"

text \<open>
  The values the first branch computes from slot \<open>k\<close> of a batch, and the test that
  selects the branch.
\<close>

definition newPosition :: "flt \<Rightarrow> batch \<Rightarrow> nat \<Rightarrow> vec" where
  "newPosition h b k =
     vadd (position (vertices b ! k))
       (vadd (vmul (velocities b ! k) h) (vmul (vmul (acceleration b ! k) h) h))"

definition newVertex :: "flt \<Rightarrow> batch \<Rightarrow> nat \<Rightarrow> vertex" where
  "newVertex h b k = (vertices b ! k)\<lparr>position := newPosition h b k\<rparr>"

definition newForce :: "gField list \<Rightarrow> flt \<Rightarrow> batch \<Rightarrow> nat \<Rightarrow> vec" where
  "newForce gs h b k = totalGForce gs (newPosition h b k)"

definition newVelocity :: "gField list \<Rightarrow> flt \<Rightarrow> batch \<Rightarrow> nat \<Rightarrow> vec" where
  "newVelocity gs h b k =
     vadd (velocities b ! k)
       (vmul (smul (Fin (1/2)) (vadd (acceleration b ! k) (newForce gs h b k))) h)"

definition inside :: "(vec \<Rightarrow> bool) \<Rightarrow> batch \<Rightarrow> nat \<Rightarrow> bool" where
  "inside bnd b k = bnd (position (vertices b ! k))"

text \<open>The slots below \<open>n\<close> whose position, as the pass finds it, is inside the bounds.\<close>

definition survivors :: "(vec \<Rightarrow> bool) \<Rightarrow> batch \<Rightarrow> nat \<Rightarrow> nat list" where
  "survivors bnd b n = filter (inside bnd b) [0 ..< n]"

definition leavers :: "(vec \<Rightarrow> bool) \<Rightarrow> batch \<Rightarrow> nat \<Rightarrow> nat list" where
  "leavers bnd b n = filter (\<lambda>k. \<not> inside bnd b k) [0 ..< n]"

definition agree :: "nat \<Rightarrow> batch \<Rightarrow> batch \<Rightarrow> bool" where
  "agree n b1 b \<longleftrightarrow>
     (\<forall>k<n. vertices b1 ! k = vertices b ! k \<and> velocities b1 ! k = velocities b ! k \<and>
            acceleration b1 ! k = acceleration b ! k)"

section \<open>Sample states\<close>

text \<open>
  The window rectangle \<open>W_DIM\<close> as bounds, the field \<open>main\<close> places, and a tick of a
  sixtieth of a second.
\<close>

definition W_DIM :: "vec \<Rightarrow> bool" where
  "W_DIM = rectContains (Fin 0) (Fin 0) (Fin 800) (Fin 600)"

definition mainField :: gField where
  "mainField = \<lparr>origin = (Fin 400, Fin 300), intensity = Fin 500\<rparr>"

definition tickSeconds :: flt where
  "tickSeconds = Fin (1/60)"

definition worldOf :: "batch list \<Rightarrow> world" where
  "worldOf bs = \<lparr>bounds = W_DIM, particles = bs, gravFields = [mainField]\<rparr>"

text \<open>One particle near the right edge, moving right at 600 units per second.\<close>

definition fastSpawned :: "batch list \<times> int" where
  "fastSpawned = spawnParticle (Fin 799, Fin 300) (Fin 600, Fin 0) ([], 0)"

text \<open>A particle spawned left of the bounds, then one at rest inside them.\<close>

definition twoSpawned :: "batch list \<times> int" where
  "twoSpawned = spawnParticle (Fin 100, Fin 300) (Fin 0, Fin 0)
                  (spawnParticle (Fin (-5), Fin 300) (Fin 0, Fin 0) ([], 0))"

text \<open>
  The state after one pass of a single worker over \<open>twoSpawned\<close>, and a third spawn
  after that pass.
\<close>

definition afterPass :: state where
  "afterPass = sequentialPass tickSeconds (worldOf (fst twoSpawned), snd twoSpawned)"

definition respawned :: "batch list \<times> int" where
  "respawned = spawnParticle (Fin 200, Fin 300) (Fin 0, Fin 0)
                 (particles (fst afterPass), snd afterPass)"

section \<open>Describing the workers\<close>

definition workerRange :: "nat \<Rightarrow> nat \<Rightarrow> nat \<Rightarrow> nat list" where
  "workerRange T M tid = [START T M tid ..< END T M tid]"

text \<open>What a pass makes of one batch, and by how much it changes the global counter.\<close>

definition batchResult :: "world \<Rightarrow> flt \<Rightarrow> batch \<Rightarrow> batch" where
  "batchResult env h b = fst (updateBatch (bounds env) (gravFields env) h (b, 0))"

definition batchDelta :: "world \<Rightarrow> flt \<Rightarrow> batch \<Rightarrow> int" where
  "batchDelta env h b = snd (updateBatch (bounds env) (gravFields env) h (b, 0))"

text \<open>\<open>n\<close> calls of \<open>updateSystem\<close>, one after the other.\<close>

fun passes :: "nat \<Rightarrow> flt \<Rightarrow> nat \<Rightarrow> state \<Rightarrow> state option" where
  "passes T h 0 s = Some s"
| "passes T h (Suc n) s = Option.bind (updateSystem T h s) (passes T h n)"

section \<open>Describing spawns and reachable states\<close>

text \<open>What \<open>spawnParticle\<close> writes into slot \<open>N\<close> of the batch it picks.\<close>

definition placed :: "vec \<Rightarrow> vec \<Rightarrow> nat \<Rightarrow> batch \<Rightarrow> batch" where
  "placed pos vel N b =
     b\<lparr>vertices := (vertices b)[N := \<lparr>position = pos, color = Yellow, texCoords = vzero\<rparr>],
       oldPositions := (oldPositions b)[N := pos],
       velocities := (velocities b)[N := vel],
       population := population b + 1\<rparr>"

text \<open>A run of spawns, one per pair of position and velocity.\<close>

definition spawnAll :: "(vec \<times> vec) list \<Rightarrow> batch list \<times> int \<Rightarrow> batch list \<times> int" where
  "spawnAll pvs s = fold (\<lambda>pv. spawnParticle (fst pv) (snd pv)) pvs s"




section \<open>More sample states\<close>


text \<open>
  A particle at rest spawned at \<open>(2\<^sup>-\<^sup>1\<^sup>0\<^sup>0, 0)\<close>, on the lower edge of the bounds, and a field of
  intensity 500 at the corner (0, 0).
\<close>

definition tinySpawned :: "batch list \<times> int" where
  "tinySpawned = spawnParticle (Fin (1 / 2 ^ 100), Fin 0) (Fin 0, Fin 0) ([], 0)"

definition cornerField :: gField where
  "cornerField = \<lparr>origin = (Fin 0, Fin 0), intensity = Fin 500\<rparr>"

text \<open>
  A batch of two particles, the first outside the bounds, the second inside with velocity
  (60, 120) and acceleration (3600, 7200); and a field of intensity 50 at (105, 308).
\<close>

definition movingBatch :: batch where
  "movingBatch =
     (placed (Fin 100, Fin 300) (Fin 60, Fin 120) 1
        (placed (Fin (-5), Fin 300) (Fin 0, Fin 0) 0 newBatch))
     \<lparr>acceleration := (acceleration newBatch)[1 := (Fin 3600, Fin 7200)]\<rparr>"

definition sideField :: gField where
  "sideField = \<lparr>origin = (Fin 105, Fin 308), intensity = Fin 50\<rparr>"

section \<open>The live particles of a run\<close>








section \<open>The threads of a pass\<close>

text \<open>
  \<open>updateSystem\<close> with its threads. The caller is in the loop that starts the threads,
  about to start thread \<open>i\<close>, or blocked in \<open>cv.wait\<close>, or has returned. A worker is not
  started, or in its loop over the batches with \<open>j\<close> the next index, or has incremented
  \<open>threadSignals\<close>.
\<close>

datatype callerpc = Spawning nat | Waiting | Returned

datatype worker = Idle | Running nat | Signalled

record threads =
  wenv :: world
  counter :: int
  threadSignals :: nat
  caller :: callerpc
  workers :: "nat \<Rightarrow> worker"

definition initial :: "world \<Rightarrow> int \<Rightarrow> threads" where
  "initial env c =
     \<lparr>wenv = env, counter = c, threadSignals = 0, caller = Spawning 0, workers = (\<lambda>tid. Idle)\<rparr>"

text \<open>
  One step of one thread; the steps of different threads interleave in any order.
  \<^item> The caller starts thread \<open>i\<close> (\<open>std::thread t(&update, std::ref(env), i)\<close>); the
    thread computes its range and stands at its first batch.
  \<^item> After the last thread the caller locks the mutex and waits.
  \<^item> A worker processes its next batch. Workers own disjoint batches and only read the
    bounds and the fields, so the work on one batch is taken as one step. The global
    \<open>particleCounter\<close> is decremented by all workers without synchronisation: what it
    holds after the step is left open (\<open>c'\<close>).
  \<^item> A worker past its last batch increments \<open>threadSignals\<close> under the mutex and
    notifies.
  \<^item> The caller leaves \<open>cv.wait\<close> when \<open>threadSignals == thNum\<close>, resets the count and
    returns.
\<close>

inductive tstep :: "nat \<Rightarrow> flt \<Rightarrow> threads \<Rightarrow> threads \<Rightarrow> bool" for T :: nat and h :: flt where
  start_thread:
    "caller s = Spawning i \<Longrightarrow> i < T \<Longrightarrow>
     tstep T h s (s\<lparr>caller := Spawning (i + 1),
                    workers := (workers s)(i := Running (START T (length (particles (wenv s))) i))\<rparr>)"
| begin_wait:
    "caller s = Spawning i \<Longrightarrow> \<not> i < T \<Longrightarrow> tstep T h s (s\<lparr>caller := Waiting\<rparr>)"
| process:
    "workers s tid = Running j \<Longrightarrow> j < END T (length (particles (wenv s))) tid \<Longrightarrow>
     tstep T h s (s\<lparr>wenv := fst (processBatch h j (wenv s, counter s)),
                    counter := c',
                    workers := (workers s)(tid := Running (j + 1))\<rparr>)"
| signal:
    "workers s tid = Running j \<Longrightarrow> \<not> j < END T (length (particles (wenv s))) tid \<Longrightarrow>
     tstep T h s (s\<lparr>threadSignals := threadSignals s + 1,
                    workers := (workers s)(tid := Signalled)\<rparr>)"
| return:
    "caller s = Waiting \<Longrightarrow> threadSignals s = T \<Longrightarrow>
     tstep T h s (s\<lparr>threadSignals := 0, caller := Returned\<rparr>)"

text \<open>What holds in every state of the threads, and the work that is left in a state.\<close>

definition finished :: "threads \<Rightarrow> nat \<Rightarrow> nat \<Rightarrow> bool" where
  "finished s tid j =
     (case workers s tid of Idle \<Rightarrow> False | Running k \<Rightarrow> j < k | Signalled \<Rightarrow> True)"

definition started :: "nat \<Rightarrow> threads \<Rightarrow> nat" where
  "started T s = (case caller s of Spawning i \<Rightarrow> i | Waiting \<Rightarrow> T | Returned \<Rightarrow> T)"

definition tinv :: "nat \<Rightarrow> flt \<Rightarrow> world \<Rightarrow> threads \<Rightarrow> bool" where
  "tinv T h env s \<longleftrightarrow>
     bounds (wenv s) = bounds env \<and> gravFields (wenv s) = gravFields env \<and>
     length (particles (wenv s)) = length (particles env) \<and>
     (\<forall>tid j. tid < T \<and> START T (length (particles env)) tid \<le> j \<and>
              j < END T (length (particles env)) tid \<longrightarrow>
        particles (wenv s) ! j =
          (if finished s tid j then batchResult env h (particles env ! j)
           else particles env ! j)) \<and>
     (\<forall>tid k. workers s tid = Running k \<longrightarrow>
        tid < T \<and> START T (length (particles env)) tid \<le> k \<and>
        k \<le> END T (length (particles env)) tid) \<and>
     (\<forall>tid. workers s tid = Signalled \<longrightarrow> tid < T) \<and>
     (\<forall>tid. workers s tid = Idle \<longleftrightarrow> started T s \<le> tid) \<and>
     started T s \<le> T \<and>
     (caller s \<noteq> Returned \<longrightarrow> threadSignals s = card {tid. workers s tid = Signalled}) \<and>
     (caller s = Returned \<longrightarrow> threadSignals s = 0 \<and> (\<forall>tid<T. workers s tid = Signalled))"

definition workLeft :: "nat \<Rightarrow> nat \<Rightarrow> nat \<Rightarrow> worker \<Rightarrow> nat" where
  "workLeft T M tid w =
     (case w of Idle \<Rightarrow> M + 2 | Running k \<Rightarrow> END T M tid - k + 1 | Signalled \<Rightarrow> 0)"

definition stepsLeft :: "nat \<Rightarrow> threads \<Rightarrow> nat" where
  "stepsLeft T s =
     (case caller s of Spawning i \<Rightarrow> T - i + 2 | Waiting \<Rightarrow> 1 | Returned \<Rightarrow> 0) +
     (\<Sum>tid<T. workLeft T (length (particles (wenv s))) tid (workers s tid))"

text \<open>A world of two batches, each with one particle outside the bounds and one inside.\<close>

definition twoBatches :: world where
  "twoBatches = worldOf [movingBatch, hd (fst twoSpawned)]"

section \<open>Closing the gap\<close>

lemma shl_Suc: "i \<le> n \<Longrightarrow> shl i (Suc n) xs = (shl i n xs)[n := shl i n xs ! (n + 1)]"
  by (simp add: shl_def)

lemma shl_empty: "n \<le> i \<Longrightarrow> shl i n xs = xs"
  by (simp add: shl_def)

lemma length_shl: "length (shl i n xs) = length xs"
proof (induction n)
  case 0 show ?case by (simp add: shl_def)
next
  case (Suc n)
  show ?case
  proof (cases "i \<le> n")
    case True with Suc show ?thesis by (simp add: shl_Suc)
  next
    case False with Suc show ?thesis by (simp add: shl_empty)
  qed
qed

lemma nth_shl:
  "n < length xs \<Longrightarrow> shl i n xs ! m = (if i \<le> m \<and> m < n then xs ! (m + 1) else xs ! m)"
proof (induction n arbitrary: m)
  case 0 show ?case by (simp add: shl_def)
next
  case (Suc n)
  show ?case
  proof (cases "i \<le> n")
    case True
    from Suc.prems have n: "n < length xs" by simp
    have "shl i (Suc n) xs ! m = ((shl i n xs)[n := shl i n xs ! (n + 1)]) ! m"
      using True by (simp add: shl_Suc)
    also have "\<dots> = (if m = n then shl i n xs ! (n + 1) else shl i n xs ! m)"
      using n by (simp add: length_shl nth_list_update)
    also have "\<dots> = (if i \<le> m \<and> m < Suc n then xs ! (m + 1) else xs ! m)"
      using True n by (auto simp: Suc.IH)
    finally show ?thesis .
  next
    case False then show ?thesis by (auto simp: shl_empty)
  qed
qed

lemma take_shl:
  assumes "i \<le> n" "n < length xs"
  shows "take n (shl i n xs) = take i xs @ drop (Suc i) (take (Suc n) xs)"
proof (rule nth_equalityI)
  show "length (take n (shl i n xs)) = length (take i xs @ drop (Suc i) (take (Suc n) xs))"
    using assms by (simp add: length_shl)
next
  fix k assume "k < length (take n (shl i n xs))"
  then have k: "k < n" by simp
  show "take n (shl i n xs) ! k = (take i xs @ drop (Suc i) (take (Suc n) xs)) ! k"
    using k assms by (auto simp: nth_shl nth_append)
qed

lemma shl_below: "n < length xs \<Longrightarrow> k < i \<Longrightarrow> shl i n xs ! k = xs ! k"
  by (simp add: nth_shl)

lemma shiftDown_eq:
  "shiftDown i b = b\<lparr>vertices := shl i (nat (population b)) (vertices b),
                     velocities := shl i (nat (population b)) (velocities b)\<rparr>"
proof -
  have "fold shiftStep [i ..< n] b = b\<lparr>vertices := shl i n (vertices b),
                     velocities := shl i n (velocities b)\<rparr>" for n
  proof (induction n)
    case 0 show ?case by (simp add: shl_def)
  next
    case (Suc n)
    show ?case
    proof (cases "i \<le> n")
      case True
      then show ?thesis using Suc by (simp add: shl_Suc shiftStep_def)
    next
      case False then show ?thesis by (simp add: shl_empty)
    qed
  qed
  then show ?thesis by (simp add: shiftDown_def)
qed

lemma drop_update_head:
  assumes "n < length ys"
  shows "drop n (ys[n := v]) = v # drop (Suc n) ys"
proof -
  have "ys[n := v] = take n ys @ v # drop (Suc n) ys"
    using assms by (rule upd_conv_take_nth_drop)
  then show ?thesis using assms by simp
qed

lemma drop_take_update:
  assumes "n < p" "p \<le> length xs"
  shows "drop n (take p (xs[n := v])) = v # drop (Suc n) (take p xs)"
proof -
  have "take p (xs[n := v]) = (take p xs)[n := v]" using assms by (simp add: take_update_swap)
  moreover have "n < length (take p xs)" using assms by simp
  ultimately show ?thesis by (simp add: drop_update_head)
qed

section \<open>One pass over a batch\<close>

lemma integrate_eq:
  "integrate gs h i b =
     b\<lparr>vertices := (vertices b)[i := newVertex h b i],
       velocities := (velocities b)[i := newVelocity gs h b i],
       acceleration := (acceleration b)[i := newForce gs h b i]\<rparr>"
  by (simp add: integrate_def Let_def newVertex_def newVelocity_def newForce_def newPosition_def)

lemma agree_survivors: "agree n b1 b \<Longrightarrow> survivors bnd b1 n = survivors bnd b n"
  unfolding survivors_def by (rule filter_cong) (auto simp: agree_def inside_def)

lemma agree_newVertex:
  "agree n b1 b \<Longrightarrow> map (newVertex h b1) (survivors bnd b n) = map (newVertex h b) (survivors bnd b n)"
  by (rule map_cong) (auto simp: agree_def survivors_def newVertex_def newPosition_def)

lemma agree_newVelocity:
  "agree n b1 b \<Longrightarrow>
     map (newVelocity gs h b1) (survivors bnd b n) = map (newVelocity gs h b) (survivors bnd b n)"
  by (rule map_cong)
     (auto simp: agree_def survivors_def newVelocity_def newForce_def newPosition_def)

lemma agree_integrate: "agree n (integrate gs h n b) b"
  by (simp add: agree_def integrate_eq)

lemma agree_remove:
  assumes "n < nat (population b)" "nat (population b) \<le> length (vertices b)"
    "length (velocities b) = length (vertices b)"
  shows "agree n (shiftDown n (b\<lparr>population := population b - 1\<rparr>)) b"
  using assms by (simp add: agree_def shiftDown_eq nth_shl)

lemma survivors_Suc:
  "survivors bnd b (Suc n) = (if inside bnd b n then survivors bnd b n @ [n] else survivors bnd b n)"
  by (simp add: survivors_def)

lemma length_survivors: "length (survivors bnd b n) \<le> n"
  unfolding survivors_def using length_filter_le [of "inside bnd b" "[0 ..< n]"] by simp

lemma scan_char:
  assumes "n \<le> nat (population b)" "nat (population b) \<le> length (vertices b)"
    "length (velocities b) = length (vertices b)"
  shows "\<exists>b'. scan bnd gs h n (b, pc) = (b', pc - int (n - length (survivors bnd b n))) \<and>
     population b' = population b - int (n - length (survivors bnd b n)) \<and>
     length (vertices b') = length (vertices b) \<and>
     length (velocities b') = length (velocities b) \<and>
     length (acceleration b') = length (acceleration b) \<and>
     oldPositions b' = oldPositions b \<and>
     take (nat (population b')) (vertices b') =
       map (newVertex h b) (survivors bnd b n) @ drop n (take (nat (population b)) (vertices b)) \<and>
     take (nat (population b')) (velocities b') =
       map (newVelocity gs h b) (survivors bnd b n) @ drop n (take (nat (population b)) (velocities b)) \<and>
     (\<forall>k. acceleration b' ! k =
        (if k < n \<and> k < length (acceleration b) \<and> inside bnd b k then newForce gs h b k else acceleration b ! k))"
  using assms
proof (induction n arbitrary: b pc)
  case 0
  show ?case by (simp add: survivors_def)
next
  case (Suc n)
  let ?p = "nat (population b)"
  let ?L = "length (vertices b)"
  from Suc.prems have n: "n < ?p" "?p \<le> ?L" "n < ?L" and lv: "length (velocities b) = ?L" by simp_all
  have ls: "length (survivors bnd b n) \<le> n" by (rule length_survivors)
  show ?case
  proof (cases "inside bnd b n")
    case True
    let ?b1 = "integrate gs h n b"
    have step: "stepAt bnd gs h n (b, pc) = (?b1, pc)"
      using True by (simp add: stepAt_def inside_def)
    have ag: "agree n ?b1 b" by (rule agree_integrate)
    have p1: "population ?b1 = population b" "length (vertices ?b1) = ?L"
      "length (velocities ?b1) = ?L" "length (acceleration ?b1) = length (acceleration b)"
      "oldPositions ?b1 = oldPositions b"
      using lv by (simp_all add: integrate_eq)
    have pre: "n \<le> nat (population ?b1)" "nat (population ?b1) \<le> length (vertices ?b1)"
      "length (velocities ?b1) = length (vertices ?b1)"
      using n p1 by simp_all
    from Suc.IH [OF pre, of pc] obtain b' where
      sc: "scan bnd gs h n (?b1, pc) = (b', pc - int (n - length (survivors bnd ?b1 n)))"
      and pop: "population b' = population ?b1 - int (n - length (survivors bnd ?b1 n))"
      and len: "length (vertices b') = length (vertices ?b1)"
        "length (velocities b') = length (velocities ?b1)"
        "length (acceleration b') = length (acceleration ?b1)"
        "oldPositions b' = oldPositions ?b1"
      and tv: "take (nat (population b')) (vertices b') =
         map (newVertex h ?b1) (survivors bnd ?b1 n) @ drop n (take (nat (population ?b1)) (vertices ?b1))"
      and tw: "take (nat (population b')) (velocities b') =
         map (newVelocity gs h ?b1) (survivors bnd ?b1 n) @ drop n (take (nat (population ?b1)) (velocities ?b1))"
      and ac: "\<forall>k. acceleration b' ! k =
        (if k < n \<and> k < length (acceleration ?b1) \<and> inside bnd ?b1 k then newForce gs h ?b1 k else acceleration ?b1 ! k)"
      by blast
    have sv: "survivors bnd ?b1 n = survivors bnd b n" by (rule agree_survivors [OF ag])
    have cnt: "Suc n - length (survivors bnd b (Suc n)) = n - length (survivors bnd b n)"
      using True ls by (simp add: survivors_Suc)
    have dv: "drop n (take ?p (vertices ?b1)) = newVertex h b n # drop (Suc n) (take ?p (vertices b))"
      using n by (simp add: integrate_eq drop_take_update)
    have dw: "drop n (take ?p (velocities ?b1)) = newVelocity gs h b n # drop (Suc n) (take ?p (velocities b))"
      using n lv by (simp add: integrate_eq drop_take_update)
    have a1: "acceleration ?b1 = (acceleration b)[n := newForce gs h b n]"
      by (simp add: integrate_eq)
    have in1: "inside bnd ?b1 k = inside bnd b k" if "k < n" for k
      using ag that by (simp add: agree_def inside_def)
    have nf1: "newForce gs h ?b1 k = newForce gs h b k" if "k < n" for k
      using ag that by (simp add: agree_def newForce_def newPosition_def)
    have "scan bnd gs h (Suc n) (b, pc) = (b', pc - int (Suc n - length (survivors bnd b (Suc n))))"
      using step sc sv cnt by simp
    moreover have "population b' = population b - int (Suc n - length (survivors bnd b (Suc n)))"
      using pop p1 sv cnt by simp
    moreover have "take (nat (population b')) (vertices b') =
       map (newVertex h b) (survivors bnd b (Suc n)) @ drop (Suc n) (take ?p (vertices b))"
      using tv True by (simp add: sv p1 dv agree_newVertex [OF ag] survivors_Suc)
    moreover have "take (nat (population b')) (velocities b') =
       map (newVelocity gs h b) (survivors bnd b (Suc n)) @ drop (Suc n) (take ?p (velocities b))"
      using tw True by (simp add: sv p1 dw agree_newVelocity [OF ag] survivors_Suc)
    moreover have "acceleration b' ! k =
        (if k < Suc n \<and> k < length (acceleration b) \<and> inside bnd b k then newForce gs h b k
         else acceleration b ! k)" for k
    proof (cases "k < n")
      case True
      then show ?thesis using ac in1 nf1 by (simp add: a1)
    next
      case False
      show ?thesis
      proof (cases "k = n")
        case True
        then show ?thesis using ac \<open>inside bnd b n\<close>
          by (cases "n < length (acceleration b)") (simp_all add: a1 list_update_beyond)
      next
        case False
        with \<open>\<not> k < n\<close> show ?thesis using ac by (simp add: a1)
      qed
    qed
    ultimately show ?thesis using len p1 lv by auto
  next
    case False
    let ?b0 = "b\<lparr>population := population b - 1\<rparr>"
    let ?b1 = "shiftDown n ?b0"
    have step: "stepAt bnd gs h n (b, pc) = (?b1, pc - 1)"
      using False by (simp add: stepAt_def inside_def remove_def Let_def)
    have ag: "agree n ?b1 b" using n lv by (intro agree_remove) simp_all
    have pm: "nat (population b - 1) = ?p - 1" by simp
    have p1: "population ?b1 = population b - 1" "length (vertices ?b1) = ?L"
      "length (velocities ?b1) = ?L" "acceleration ?b1 = acceleration b"
      "oldPositions ?b1 = oldPositions b"
      using lv by (simp_all add: shiftDown_eq length_shl)
    have pre: "n \<le> nat (population ?b1)" "nat (population ?b1) \<le> length (vertices ?b1)"
      "length (velocities ?b1) = length (vertices ?b1)"
      using n p1 by simp_all
    from Suc.IH [OF pre, of "pc - 1"] obtain b' where
      sc: "scan bnd gs h n (?b1, pc - 1) = (b', pc - 1 - int (n - length (survivors bnd ?b1 n)))"
      and pop: "population b' = population ?b1 - int (n - length (survivors bnd ?b1 n))"
      and len: "length (vertices b') = length (vertices ?b1)"
        "length (velocities b') = length (velocities ?b1)"
        "length (acceleration b') = length (acceleration ?b1)"
        "oldPositions b' = oldPositions ?b1"
      and tv: "take (nat (population b')) (vertices b') =
         map (newVertex h ?b1) (survivors bnd ?b1 n) @ drop n (take (nat (population ?b1)) (vertices ?b1))"
      and tw: "take (nat (population b')) (velocities b') =
         map (newVelocity gs h ?b1) (survivors bnd ?b1 n) @ drop n (take (nat (population ?b1)) (velocities ?b1))"
      and ac: "\<forall>k. acceleration b' ! k =
        (if k < n \<and> k < length (acceleration ?b1) \<and> inside bnd ?b1 k then newForce gs h ?b1 k else acceleration ?b1 ! k)"
      by blast
    have sv: "survivors bnd ?b1 n = survivors bnd b n" by (rule agree_survivors [OF ag])
    have cnt: "int (Suc n - length (survivors bnd b (Suc n))) = 1 + int (n - length (survivors bnd b n))"
      using False ls by (simp add: survivors_Suc)
    obtain q where q: "?p = Suc q" using n by (cases ?p) simp_all
    have pq: "nat (population b - 1) = q" using q by simp
    have sh: "drop n (take q (shl n q xs)) = drop (Suc n) (take ?p xs)"
      if "length xs = ?L" for xs :: "'x list"
    proof -
      have "take q (shl n q xs) = take n xs @ drop (Suc n) (take (Suc q) xs)"
        using n q that by (intro take_shl) simp_all
      moreover have "length (take n xs) = n" using n that by simp
      ultimately show ?thesis using q by simp
    qed
    have dv: "drop n (take (nat (population ?b1)) (vertices ?b1)) = drop (Suc n) (take ?p (vertices b))"
      using sh [of "vertices b"] by (simp add: shiftDown_eq pq)
    have dw: "drop n (take (nat (population ?b1)) (velocities ?b1)) = drop (Suc n) (take ?p (velocities b))"
      using sh [of "velocities b"] lv by (simp add: shiftDown_eq pq)
    have in1: "inside bnd ?b1 k = inside bnd b k" if "k < n" for k
      using ag that by (simp add: agree_def inside_def)
    have nf1: "newForce gs h ?b1 k = newForce gs h b k" if "k < n" for k
      using ag that by (simp add: agree_def newForce_def newPosition_def)
    have "scan bnd gs h (Suc n) (b, pc) = (b', pc - int (Suc n - length (survivors bnd b (Suc n))))"
      using step sc sv cnt by simp
    moreover have "population b' = population b - int (Suc n - length (survivors bnd b (Suc n)))"
      using pop p1 sv cnt by simp
    moreover have "take (nat (population b')) (vertices b') =
       map (newVertex h b) (survivors bnd b (Suc n)) @ drop (Suc n) (take ?p (vertices b))"
      using tv False by (simp add: sv dv agree_newVertex [OF ag] survivors_Suc)
    moreover have "take (nat (population b')) (velocities b') =
       map (newVelocity gs h b) (survivors bnd b (Suc n)) @ drop (Suc n) (take ?p (velocities b))"
      using tw False by (simp add: sv dw agree_newVelocity [OF ag] survivors_Suc)
    moreover have "acceleration b' ! k =
        (if k < Suc n \<and> k < length (acceleration b) \<and> inside bnd b k then newForce gs h b k
         else acceleration b ! k)" for k
    proof (cases "k < n")
      case True
      then show ?thesis using ac in1 nf1 by (simp add: p1)
    next
      case False
      then show ?thesis using ac \<open>\<not> inside bnd b n\<close> by (auto simp: p1 less_Suc_eq)
    qed
    ultimately show ?thesis using len p1 lv by auto
  qed
qed

lemma length_leavers: "int (n - length (survivors bnd b n)) = int (length (leavers bnd b n))"
proof -
  have "length (survivors bnd b n) + length (leavers bnd b n) = n"
    unfolding survivors_def leavers_def
    using sum_length_filter_compl [of "inside bnd b" "[0 ..< n]"] by simp
  then show ?thesis by simp
qed

lemma updateBatch_char:
  assumes "wf_batch b"
  shows "\<exists>b'. updateBatch bnd gs h (b, pc) =
            (b', pc - int (length (leavers bnd b (nat (population b))))) \<and>
     population b' = population b - int (length (leavers bnd b (nat (population b)))) \<and>
     length (vertices b') = length (vertices b) \<and>
     length (velocities b') = length (velocities b) \<and>
     length (acceleration b') = length (acceleration b) \<and>
     oldPositions b' = oldPositions b \<and>
     take (nat (population b')) (vertices b') =
       map (newVertex h b) (survivors bnd b (nat (population b))) \<and>
     take (nat (population b')) (velocities b') =
       map (newVelocity gs h b) (survivors bnd b (nat (population b))) \<and>
     (\<forall>k. acceleration b' ! k =
        (if k < nat (population b) \<and> inside bnd b k then newForce gs h b k
         else acceleration b ! k))"
proof -
  let ?p = "nat (population b)"
  from assms have pre: "?p \<le> ?p" "?p \<le> length (vertices b)"
    "length (velocities b) = length (vertices b)"
    and la: "?p \<le> length (acceleration b)"
    by (auto simp: wf_batch_def)
  from scan_char [OF pre, of bnd gs h pc] obtain b' where
    *: "scan bnd gs h ?p (b, pc) = (b', pc - int (?p - length (survivors bnd b ?p)))"
    "population b' = population b - int (?p - length (survivors bnd b ?p))"
    "length (vertices b') = length (vertices b)"
    "length (velocities b') = length (velocities b)"
    "length (acceleration b') = length (acceleration b)"
    "oldPositions b' = oldPositions b"
    "take (nat (population b')) (vertices b') =
       map (newVertex h b) (survivors bnd b ?p) @ drop ?p (take ?p (vertices b))"
    "take (nat (population b')) (velocities b') =
       map (newVelocity gs h b) (survivors bnd b ?p) @ drop ?p (take ?p (velocities b))"
    "\<forall>k. acceleration b' ! k =
        (if k < ?p \<and> k < length (acceleration b) \<and> inside bnd b k then newForce gs h b k
         else acceleration b ! k)"
    by blast
  have "\<forall>k. acceleration b' ! k =
        (if k < ?p \<and> inside bnd b k then newForce gs h b k else acceleration b ! k)"
    using *(9) la by auto
  with * show ?thesis
    by (simp add: updateBatch_def length_leavers)
qed

lemmas sample_eval = spawnParticle_def Let_def newBatch_def MAX_BATCH_VERTS_def
     updateBatch_def numeral_2_eq_2 stepAt_def W_DIM_def rectContains_def fmin_def fmax_def
     integrate_def remove_def shiftDown_def shiftStep_def vadd_def vmul_def vzero_def smul_def
     totalGForce_def fieldForce_def vsub_def vdiv_def fsub_def mainField_def tickSeconds_def
     defaultVertex_def ranged_def

lemma updateSystem_one: "updateSystem 1 h s = Some (sequentialPass h s)"
  by (simp add: updateSystem_def update_def START_def END_def STEP_def sequentialPass_def)

section \<open>Removal of particles outside the bounds\<close>

text \<open>
  C1, as the code has it. The bounds test reads the position a particle has when the
  pass reaches it, before the integration step. For a batch whose population lies within
  its arrays, a pass leaves as live slots exactly the particles that were inside the bounds
  at that moment, in their original index order, each with its integrated position and
  velocity; every particle found outside is gone, and the population and the global
  counter drop by one for each of them.
\<close>

theorem update_removes_what_it_finds_outside:
  assumes "wf_batch b"
  shows "\<exists>b'. updateBatch bnd gs h (b, pc) =
            (b', pc - int (length (leavers bnd b (nat (population b))))) \<and>
     population b' = population b - int (length (leavers bnd b (nat (population b)))) \<and>
     take (nat (population b')) (vertices b') =
       map (newVertex h b) (survivors bnd b (nat (population b))) \<and>
     take (nat (population b')) (velocities b') =
       map (newVelocity gs h b) (survivors bnd b (nat (population b)))"
  using updateBatch_char [OF assms, of bnd gs h pc] by blast

text \<open>
  The theorem at the batch of \<open>twoSpawned\<close>: slot 0 is left of the bounds, slot 1 inside.
\<close>

theorem update_removes_what_it_finds_outside_witness:
  "wf_batch (hd (fst twoSpawned)) \<and>
   (\<exists>b'. updateBatch W_DIM [mainField] tickSeconds (hd (fst twoSpawned), 2) = (b', 1) \<and>
      population (hd (fst twoSpawned)) = 2 \<and> population b' = 1 \<and>
      take 1 (vertices b') = [newVertex tickSeconds (hd (fst twoSpawned)) 1] \<and>
      take 1 (velocities b') = [newVelocity [mainField] tickSeconds (hd (fst twoSpawned)) 1])"
proof -
  have w: "wf_batch (hd (fst twoSpawned))"
    by (simp add: twoSpawned_def wf_batch_def sample_eval)
  have p: "population (hd (fst twoSpawned)) = 2"
    by (simp add: twoSpawned_def sample_eval)
  have s: "survivors W_DIM (hd (fst twoSpawned)) 2 = [1]"
    by (simp add: twoSpawned_def survivors_def inside_def sample_eval)
  have l: "leavers W_DIM (hd (fst twoSpawned)) 2 = [0]"
    by (simp add: twoSpawned_def leavers_def inside_def sample_eval)
  from update_removes_what_it_finds_outside [OF w, of W_DIM "[mainField]" tickSeconds 2]
  show ?thesis using w by (auto simp: p s l)
qed

text \<open>
  C1 as the specification words it fails: the particle of \<open>fastSpawned\<close> starts inside the
  bounds at (799, 300), its integrated position (809, 300) is outside, and it is still
  the one live particle of its batch when the pass is over.
\<close>

theorem integrated_outside_counterexample:
  "\<not> W_DIM (position (vertices (fst (updateBatch W_DIM [mainField] tickSeconds
          (hd (fst fastSpawned), snd fastSpawned))) ! 0)) \<and>
   population (fst (updateBatch W_DIM [mainField] tickSeconds
          (hd (fst fastSpawned), snd fastSpawned))) = 1 \<and>
   position (vertices (fst (updateBatch W_DIM [mainField] tickSeconds
          (hd (fst fastSpawned), snd fastSpawned))) ! 0) = (Fin 809, Fin 300)"
  by (simp add: fastSpawned_def sample_eval)

section \<open>The acceleration column\<close>

text \<open>
  C2 at the batch of \<open>twoSpawned\<close>. The pass integrates the particle in slot 1 and stores
  its force (5/3, 0) as \<open>acceleration[1]\<close>, then removes the particle in slot 0. The
  removal moves vertex and velocity of the survivor to slot 0, and leaves the acceleration
  column as it is: slot 0 keeps the removed particle's acceleration, and the survivor's
  stays behind in slot 1.
\<close>

theorem removal_leaves_acceleration_behind:
  "population (hd (fst twoSpawned)) = 2 \<and>
   position (vertices (hd (fst twoSpawned)) ! 1) = (Fin 100, Fin 300) \<and>
   population (fst (updateBatch W_DIM [mainField] tickSeconds
          (hd (fst twoSpawned), snd twoSpawned))) = 1 \<and>
   position (vertices (fst (updateBatch W_DIM [mainField] tickSeconds
          (hd (fst twoSpawned), snd twoSpawned))) ! 0) = (Fin 100, Fin 300) \<and>
   velocities (fst (updateBatch W_DIM [mainField] tickSeconds
          (hd (fst twoSpawned), snd twoSpawned))) ! 0 = (Fin (1/72), Fin 0) \<and>
   acceleration (fst (updateBatch W_DIM [mainField] tickSeconds
          (hd (fst twoSpawned), snd twoSpawned))) ! 0 = (Fin 0, Fin 0) \<and>
   acceleration (fst (updateBatch W_DIM [mainField] tickSeconds
          (hd (fst twoSpawned), snd twoSpawned))) ! 1 = (Fin (5/3), Fin 0)"
  by (simp add: twoSpawned_def sample_eval)

text \<open>
  C3 after that pass. The next spawn takes slot 1 of the same batch: it writes position
  and velocity, and the slot keeps the acceleration (5/3, 0) of the particle that had it
  before, where the specification asks for zero.
\<close>

theorem spawn_keeps_stale_acceleration:
  "updateSystem 1 tickSeconds (worldOf (fst twoSpawned), snd twoSpawned) = Some afterPass \<and>
   length (fst respawned) = 1 \<and>
   population (last (fst respawned)) = 2 \<and>
   position (vertices (last (fst respawned)) ! 1) = (Fin 200, Fin 300) \<and>
   velocities (last (fst respawned)) ! 1 = (Fin 0, Fin 0) \<and>
   acceleration (last (fst respawned)) ! 1 = (Fin (5/3), Fin 0)"
proof (intro conjI)
  show "updateSystem 1 tickSeconds (worldOf (fst twoSpawned), snd twoSpawned) = Some afterPass"
    by (simp only: updateSystem_one afterPass_def)
qed (simp_all add: respawned_def afterPass_def sequentialPass_def processBatch_def worldOf_def
       twoSpawned_def sample_eval)

section \<open>Workers and the sequential pass\<close>

lemma stepAt_counter:
  "stepAt bnd gs h i (b, pc) = (fst (stepAt bnd gs h i (b, 0)), pc + snd (stepAt bnd gs h i (b, 0)))"
  by (simp add: stepAt_def remove_def Let_def)

lemma scan_counter:
  "scan bnd gs h n (b, pc) = (fst (scan bnd gs h n (b, 0)), pc + snd (scan bnd gs h n (b, 0)))"
proof (induction n arbitrary: b pc)
  case 0 show ?case by simp
next
  case (Suc n)
  obtain b1 d where s0: "stepAt bnd gs h n (b, 0) = (b1, d)" by (cases "stepAt bnd gs h n (b, 0)")
  then have s: "stepAt bnd gs h n (b, pc) = (b1, pc + d)"
    using stepAt_counter [of bnd gs h n b pc] by simp
  show ?case
    using Suc.IH [of b1 "pc + d"] Suc.IH [of b1 d] by (simp add: s s0)
qed

lemma processBatch_eq:
  "processBatch h j (env, pc) =
     (env\<lparr>particles := (particles env)[j := batchResult env h (particles env ! j)]\<rparr>,
      pc + batchDelta env h (particles env ! j))"
  using scan_counter [of "bounds env" "gravFields env" h "nat (population (particles env ! j))"
      "particles env ! j" pc]
  by (simp add: processBatch_def Let_def batchResult_def batchDelta_def updateBatch_def)

lemma fold_processBatch:
  assumes "distinct js" "\<forall>j\<in>set js. j < length (particles env)"
  shows "fold (processBatch h) js (env, pc) =
     (env\<lparr>particles := map (\<lambda>j. if j \<in> set js then batchResult env h (particles env ! j)
                                  else particles env ! j) [0 ..< length (particles env)]\<rparr>,
      pc + sum_list (map (\<lambda>j. batchDelta env h (particles env ! j)) js))"
  using assms
proof (induction js arbitrary: env pc)
  case Nil
  show ?case by (simp add: map_nth)
next
  case (Cons j js)
  let ?ps = "particles env"
  let ?env1 = "env\<lparr>particles := ?ps[j := batchResult env h (?ps ! j)]\<rparr>"
  from Cons.prems have j: "j < length ?ps" "j \<notin> set js" "distinct js"
    and js: "\<forall>k\<in>set js. k < length (particles ?env1)" by simp_all
  have br: "batchResult ?env1 h = batchResult env h" "batchDelta ?env1 h = batchDelta env h"
    by (simp_all add: batchResult_def batchDelta_def fun_eq_iff)
  let ?d = "batchDelta env h (?ps ! j)"
  have step: "processBatch h j (env, pc) = (?env1, pc + ?d)"
    by (simp add: processBatch_eq)
  have ih: "fold (processBatch h) js (?env1, pc + ?d) =
     (?env1\<lparr>particles := map (\<lambda>k. if k \<in> set js then batchResult ?env1 h (particles ?env1 ! k)
                                  else particles ?env1 ! k) [0 ..< length (particles ?env1)]\<rparr>,
      pc + ?d + sum_list (map (\<lambda>k. batchDelta ?env1 h (particles ?env1 ! k)) js))"
    by (rule Cons.IH [OF j(3) js])
  have m1: "map (\<lambda>k. if k \<in> set js then batchResult ?env1 h (particles ?env1 ! k)
                  else particles ?env1 ! k) [0 ..< length (particles ?env1)]
        = map (\<lambda>k. if k \<in> set (j # js) then batchResult env h (?ps ! k) else ?ps ! k)
            [0 ..< length ?ps]"
    unfolding br using j by (intro map_cong) (auto simp: nth_list_update)
  have m2: "map (\<lambda>k. batchDelta ?env1 h (particles ?env1 ! k)) js
        = map (\<lambda>k. batchDelta env h (?ps ! k)) js"
    unfolding br using j by (intro map_cong) (auto simp: nth_list_update)
  have "fold (processBatch h) (j # js) (env, pc) = fold (processBatch h) js (?env1, pc + ?d)"
    by (simp add: step)
  also note ih
  finally show ?case unfolding m1 m2 by simp
qed

lemma fold_processBatch_length:
  "length (particles (fst (fold (processBatch h) js s))) = length (particles (fst s))"
proof (induction js arbitrary: s)
  case Nil show ?case by simp
next
  case (Cons j js)
  show ?case using Cons.IH [of "processBatch h j s"]
    by (cases s) (simp add: processBatch_eq)
qed

lemma fold_processBatch_cong:
  assumes "distinct js" "distinct ks" "set js = set ks"
    "\<forall>j\<in>set js. j < length (particles (fst s))"
  shows "fold (processBatch h) js s = fold (processBatch h) ks s"
proof -
  obtain env pc where s: "s = (env, pc)" by (cases s)
  have "sum_list (map (\<lambda>j. batchDelta env h (particles env ! j)) js)
      = sum_list (map (\<lambda>j. batchDelta env h (particles env ! j)) ks)"
    using assms by (simp add: sum_list_distinct_conv_sum_set)
  then show ?thesis
    using assms fold_processBatch [of js env h pc] fold_processBatch [of ks env h pc]
    by (simp add: s)
qed

lemma update_eq:
  "1 \<le> T \<Longrightarrow> update T h tid s =
     Some (fold (processBatch h) (workerRange T (length (particles (fst s))) tid) s)"
  by (simp add: update_def workerRange_def Let_def)

lemma runWorkers_ranges:
  assumes "1 \<le> T"
  shows "runWorkers T h ids s =
     Some (fold (processBatch h) (concat (map (workerRange T (length (particles (fst s)))) ids)) s)"
proof (induction ids arbitrary: s)
  case Nil show ?case by simp
next
  case (Cons tid ids)
  show ?case
    using assms Cons.IH [of "fold (processBatch h) (workerRange T (length (particles (fst s))) tid) s"]
    by (simp add: update_eq fold_processBatch_length)
qed

lemma END_eq: "1 \<le> T \<Longrightarrow> END T M tid = (if tid = T - 1 then M else STEP T M * (tid + 1))"
  by (auto simp: END_def)

lemma ranges_prefix:
  "k < T \<Longrightarrow> concat (map (workerRange T M) [0 ..< k]) = [0 ..< STEP T M * k]"
proof (induction k)
  case 0 show ?case by simp
next
  case (Suc k)
  then have "workerRange T M k = [STEP T M * k ..< STEP T M * (k + 1)]"
    by (simp add: workerRange_def START_def END_eq)
  moreover have "[0 ..< STEP T M * k] @ [STEP T M * k ..< STEP T M * (k + 1)] = [0 ..< STEP T M * (k + 1)]"
    by (metis upt_add_eq_append zero_le mult_Suc_right Suc_eq_plus1 add.commute)
  ultimately show ?case using Suc by simp
qed

lemma ranges_cover:
  assumes "1 \<le> T"
  shows "concat (map (workerRange T M) [0 ..< T]) = [0 ..< M]"
proof -
  obtain k where T: "T = Suc k" using assms by (cases T) simp_all
  have le: "STEP T M * k \<le> M"
  proof -
    have "(M div T) * k \<le> (M div T) * T" using T by simp
    also have "\<dots> \<le> M" by simp
    finally show ?thesis by (simp add: STEP_def)
  qed
  have "workerRange T M k = [STEP T M * k ..< M]"
    using T by (simp add: workerRange_def START_def END_eq)
  moreover have "concat (map (workerRange T M) [0 ..< k]) = [0 ..< STEP T M * k]"
    using T by (intro ranges_prefix) simp
  moreover have "[0 ..< STEP T M * k] @ [STEP T M * k ..< M] = [0 ..< M]"
    using le by (metis upt_add_eq_append zero_le le_add_diff_inverse)
  ultimately show ?thesis by (simp add: T)
qed

lemma ranges_disjoint:
  assumes "tid < tid'" "tid' < T"
  shows "set (workerRange T M tid) \<inter> set (workerRange T M tid') = {}"
proof -
  have "END T M tid = STEP T M * (tid + 1)" using assms by (auto simp: END_eq)
  also have "\<dots> \<le> STEP T M * tid'" using assms by (intro mult_le_mono2) simp
  finally have "END T M tid \<le> START T M tid'" by (simp add: START_def)
  then show ?thesis by (auto simp: workerRange_def)
qed

lemma ranges_disjoint':
  assumes "tid \<noteq> tid'" "tid < T" "tid' < T"
  shows "set (workerRange T M tid) \<inter> set (workerRange T M tid') = {}"
proof (cases "tid < tid'")
  case True then show ?thesis using assms by (simp add: ranges_disjoint)
next
  case False
  then have "tid' < tid" using assms by simp
  then show ?thesis using assms ranges_disjoint [of tid' tid T M] by (simp add: Int_commute)
qed

lemma distinct_ranges:
  assumes "distinct ids" "\<forall>tid\<in>set ids. tid < T"
  shows "distinct (concat (map (workerRange T M) ids))"
  using assms
proof (induction ids)
  case Nil show ?case by simp
next
  case (Cons tid ids)
  have "set (workerRange T M tid) \<inter> set (workerRange T M t) = {}" if "t \<in> set ids" for t
    using Cons.prems that by (intro ranges_disjoint') auto
  moreover have "distinct (workerRange T M tid)" by (simp add: workerRange_def)
  ultimately show ?case using Cons by auto
qed

lemma set_ranges:
  assumes "1 \<le> T" "set ids = {0 ..< T}"
  shows "set (concat (map (workerRange T M) ids)) = {0 ..< M}"
proof -
  have "set (concat (map (workerRange T M) ids)) = set (concat (map (workerRange T M) [0 ..< T]))"
    using assms(2) by simp
  then show ?thesis using ranges_cover [OF assms(1), of M] by simp
qed

lemma runWorkers_sequential:
  assumes "1 \<le> T" "distinct ids" "set ids = {0 ..< T}"
  shows "runWorkers T h ids s = Some (sequentialPass h s)"
proof -
  let ?M = "length (particles (fst s))"
  let ?js = "concat (map (workerRange T ?M) ids)"
  have d: "distinct ?js" using assms by (intro distinct_ranges) auto
  have st: "set ?js = set [0 ..< ?M]"
    using set_ranges [OF assms(1) assms(3), of ?M] by (simp only: set_upt)
  have "fold (processBatch h) ?js s = fold (processBatch h) [0 ..< ?M] s"
    using d st by (intro fold_processBatch_cong) auto
  then show ?thesis using assms(1) by (simp add: runWorkers_ranges sequentialPass_def)
qed

section \<open>The tick driver runs whole steps\<close>

lemma updateSystem_zero: "updateSystem 0 h s = Some s"
  by (simp add: updateSystem_def)

lemma updateSystem_total: "\<exists>s'. updateSystem T h s = Some s'"
proof (cases "T = 0")
  case True then show ?thesis by (simp add: updateSystem_zero)
next
  case False
  then have "updateSystem T h s = Some (sequentialPass h s)"
    unfolding updateSystem_def by (intro runWorkers_sequential) auto
  then show ?thesis by blast
qed

lemma passes_total: "\<exists>s'. passes T h n s = Some s'"
proof (induction n arbitrary: s)
  case 0 show ?case by simp
next
  case (Suc n)
  obtain s1 where "updateSystem T h s = Some s1" using updateSystem_total by blast
  then show ?case using Suc [of s1] by simp
qed

lemma tickLoop_run:
  assumes "0 < dt" "int n * dt \<le> time" "time < (int n + 1) * dt"
  shows "tickLoop T h dt time s = map_option (Pair (time - int n * dt)) (passes T h n s)"
  using assms(2,3)
proof (induction n arbitrary: time s)
  case 0
  then show ?case by (subst tickLoop.simps) simp
next
  case (Suc n)
  have "dt \<le> int (Suc n) * dt" using assms(1) by (simp add: algebra_simps)
  with Suc.prems have ge: "dt \<le> time" by simp
  have a: "int n * dt \<le> time - dt" "time - dt < (int n + 1) * dt"
    using Suc.prems by (simp_all add: algebra_simps)
  have r: "time - dt - int n * dt = time - int (Suc n) * dt" by (simp add: algebra_simps)
  obtain s1 where s1: "updateSystem T h s = Some s1" using updateSystem_total by blast
  show ?case
    using ge Suc.IH [OF a, of s1] by (subst tickLoop.simps) (simp add: s1 r)
qed

text \<open>
  C9. A frame adds its delta to the accumulator; with a positive tick \<open>dt\<close> and a
  non-negative sum, the loop returns after as many calls of \<open>updateSystem\<close>, one per
  subtraction of \<open>dt\<close>, as \<open>dt\<close> fits into the sum, and keeps the remainder. A delta of
  two and a half ticks on an empty accumulator gives two passes and leaves half a tick.
\<close>

theorem tick_runs_whole_steps:
  assumes "0 < dt" "0 \<le> acc + delta"
  shows "(\<exists>s'. passes T h (nat ((acc + delta) div dt)) s = Some s' \<and>
               tick T h dt delta (acc, s) = Some ((acc + delta) mod dt, s')) \<and>
         (acc = 0 \<and> 2 * delta = 5 * dt \<longrightarrow>
            (\<exists>s'. passes T h 2 s = Some s' \<and>
                  tick T h dt delta (acc, s) = Some (delta - 2 * dt, s')) \<and>
            2 * (delta - 2 * dt) = dt)"
proof -
  let ?t = "acc + delta"
  let ?n = "nat (?t div dt)"
  have n0: "0 \<le> ?t div dt" using assms by (simp add: pos_imp_zdiv_nonneg_iff)
  have md: "dt * (?t div dt) + ?t mod dt = ?t" by simp
  have m0: "0 \<le> ?t mod dt" "?t mod dt < dt" using assms(1) by simp_all
  have nn: "int ?n * dt = dt * (?t div dt)" using n0 by simp
  have lo: "int ?n * dt \<le> ?t" using nn md m0 by linarith
  have "(int ?n + 1) * dt = int ?n * dt + dt" by (simp add: algebra_simps)
  then have hi: "?t < (int ?n + 1) * dt" using nn md m0 by linarith
  have rem: "?t - int ?n * dt = ?t mod dt" using nn md by linarith
  obtain s' where s': "passes T h ?n s = Some s'" using passes_total by blast
  have "tickLoop T h dt ?t s = Some (?t - int ?n * dt, s')"
    using tickLoop_run [OF assms(1) lo hi, of T h s] by (simp only: s' option.map)
  then have "tickLoop T h dt ?t s = Some (?t mod dt, s')" by (simp only: rem)
  then have run: "tick T h dt delta (acc, s) = Some (?t mod dt, s')"
    by (simp add: tick_def)
  have first: "\<exists>s'. passes T h ?n s = Some s' \<and> tick T h dt delta (acc, s) = Some (?t mod dt, s')"
    using s' run by blast
  have second: "(\<exists>s'. passes T h 2 s = Some s' \<and>
                  tick T h dt delta (acc, s) = Some (delta - 2 * dt, s')) \<and>
            2 * (delta - 2 * dt) = dt" if h: "acc = 0" "2 * delta = 5 * dt"
  proof -
    have lo2: "int 2 * dt \<le> acc + delta" and hi2: "acc + delta < (int 2 + 1) * dt"
      using h assms(1) by simp_all
    obtain s2 where s2: "passes T h 2 s = Some s2" using passes_total by blast
    have "tick T h dt delta (acc, s) = Some (delta - 2 * dt, s2)"
      using tickLoop_run [OF assms(1) lo2 hi2, of T h s] h by (simp add: tick_def s2)
    then show ?thesis using s2 h by auto
  qed
  show ?thesis using first second by blast
qed

text \<open>A tick of 16666 microseconds and a frame of 41665.\<close>

theorem tick_runs_whole_steps_witness:
  "(0::int) < 16666 \<and> (0::int) \<le> 0 + 41665 \<and>
   (\<exists>s'. passes 1 tickSeconds 2 (worldOf (fst twoSpawned), snd twoSpawned) = Some s' \<and>
      tick 1 tickSeconds 16666 41665 (0, (worldOf (fst twoSpawned), snd twoSpawned)) =
        Some (8333, s'))"
proof -
  have a: "(0::int) < 16666" by simp
  have b: "(0::int) \<le> 0 + 41665" by simp
  from tick_runs_whole_steps [OF a b, of 1 tickSeconds "(worldOf (fst twoSpawned), snd twoSpawned)"]
  show ?thesis by simp
qed

section \<open>No workers\<close>

text \<open>
  C10, as the code has it. With a worker count of zero \<open>updateSystem\<close> starts no worker
  and returns the state it was given: no batch is processed. The division by zero sits
  in \<open>update\<close>, which is then never called.
\<close>

theorem no_workers_no_pass: "updateSystem 0 h s = Some s \<and> update 0 h tid s = None"
  by (simp add: updateSystem_def update_def)

text \<open>
  C10 as the specification words it fails: on the world of \<open>twoSpawned\<close>, whose first
  particle is outside the bounds, a pass over all batches removes that particle, and
  \<open>updateSystem\<close> with zero workers does not.
\<close>

theorem no_workers_counterexample:
  "updateSystem 0 tickSeconds (worldOf (fst twoSpawned), snd twoSpawned)
     \<noteq> Some (sequentialPass tickSeconds (worldOf (fst twoSpawned), snd twoSpawned))"
proof -
  have "snd (sequentialPass tickSeconds (worldOf (fst twoSpawned), snd twoSpawned)) = 1"
    by (simp add: sequentialPass_def processBatch_def worldOf_def twoSpawned_def sample_eval)
  moreover have "snd (worldOf (fst twoSpawned), snd twoSpawned) = 2"
    by (simp add: twoSpawned_def spawnParticle_def Let_def)
  ultimately show ?thesis by (auto simp: updateSystem_def)
qed

section \<open>Spawning fills batches in order\<close>

lemma spawn_first:
  "spawnParticle pos vel ([], pc) = ([placed pos vel 0 newBatch], pc + 1)"
  by (simp add: spawnParticle_def Let_def placed_def newBatch_def MAX_BATCH_VERTS_def)

lemma spawn_room:
  assumes "bs \<noteq> []" "population (last bs) < MAX_BATCH_VERTS"
  shows "spawnParticle pos vel (bs, pc) =
     (butlast bs @ [placed pos vel (nat (population (last bs))) (last bs)], pc + 1)"
  using assms by (simp add: spawnParticle_def Let_def placed_def)

lemma spawn_full:
  assumes "bs \<noteq> []" "MAX_BATCH_VERTS \<le> population (last bs)"
  shows "spawnParticle pos vel (bs, pc) = (bs @ [placed pos vel 0 newBatch], pc + 1)"
  using assms by (simp add: spawnParticle_def Let_def placed_def)

lemma population_placed: "population (placed pos vel N b) = population b + 1"
  by (simp add: placed_def)

lemma population_newBatch: "population newBatch = 0"
  by (simp add: newBatch_def)

lemma spawnAll_room:
  assumes "population b + int (length pvs) \<le> MAX_BATCH_VERTS"
  shows "\<exists>b'. spawnAll pvs (bs @ [b], pc) = (bs @ [b'], pc + int (length pvs)) \<and>
              population b' = population b + int (length pvs)"
  using assms
proof (induction pvs arbitrary: b pc)
  case Nil
  show ?case by (simp add: spawnAll_def)
next
  case (Cons pv pvs)
  let ?b1 = "placed (fst pv) (snd pv) (nat (population b)) b"
  from Cons.prems have lt: "population b < MAX_BATCH_VERTS" by simp
  have s: "spawnParticle (fst pv) (snd pv) (bs @ [b], pc) = (bs @ [?b1], pc + 1)"
    using lt spawn_room [of "bs @ [b]" "fst pv" "snd pv" pc] by simp
  have "population ?b1 + int (length pvs) \<le> MAX_BATCH_VERTS"
    using Cons.prems by (simp add: population_placed)
  from Cons.IH [OF this, of "pc + 1"] obtain b' where
    "spawnAll pvs (bs @ [?b1], pc + 1) = (bs @ [b'], pc + 1 + int (length pvs))"
    "population b' = population ?b1 + int (length pvs)" by blast
  then show ?case using s by (simp add: spawnAll_def population_placed)
qed

lemma spawnAll_overflow:
  assumes "length pvs = nat MAX_BATCH_VERTS + 1"
  shows "\<exists>b1 b2. spawnAll pvs ([], 0) = ([b1, b2], MAX_BATCH_VERTS + 1) \<and>
           population b1 = MAX_BATCH_VERTS \<and> population b2 = 1"
proof -
  have K: "nat MAX_BATCH_VERTS = Suc (nat MAX_BATCH_VERTS - 1)" "0 < MAX_BATCH_VERTS"
    by (simp_all add: MAX_BATCH_VERTS_def)
  from assms obtain x rest where pvs: "pvs = x # rest" by (cases pvs) simp_all
  with assms K have "rest \<noteq> []" by auto
  then obtain mid y where rest: "rest = mid @ [y]" by (metis rev_exhaust)
  have lm: "int (length mid) = MAX_BATCH_VERTS - 1" using assms pvs rest K(2) by simp
  let ?b0 = "placed (fst x) (snd x) 0 newBatch"
  have p0: "population ?b0 = 1" by (simp add: population_placed population_newBatch)
  have "population ?b0 + int (length mid) \<le> MAX_BATCH_VERTS" using lm p0 by simp
  from spawnAll_room [OF this, of "[]" 1] obtain b1 where
    b1: "spawnAll mid ([?b0], 1) = ([b1], 1 + int (length mid))"
    "population b1 = population ?b0 + int (length mid)" by auto
  have pb1: "population b1 = MAX_BATCH_VERTS" using b1(2) p0 lm by simp
  let ?b2 = "placed (fst y) (snd y) 0 newBatch"
  have "spawnParticle (fst y) (snd y) ([b1], 1 + int (length mid)) =
          ([b1, ?b2], 1 + int (length mid) + 1)"
    using spawn_full [of "[b1]" "fst y" "snd y"] pb1 by simp
  then have "spawnAll pvs ([], 0) = ([b1, ?b2], MAX_BATCH_VERTS + 1)"
    using b1(1) lm by (simp add: pvs rest spawnAll_def spawn_first)
  moreover have "population ?b2 = 1" by (simp add: population_placed population_newBatch)
  ultimately show ?thesis using pb1 by blast
qed

text \<open>
  C7. Any \<open>MAX_BATCH_VERTS + 1\<close> spawns into a world without batches give exactly two
  batches, the first with population \<open>MAX_BATCH_VERTS\<close> and the second with population 1.
\<close>

theorem spawn_overflow:
  assumes "length pvs = nat MAX_BATCH_VERTS + 1"
  shows "length (fst (spawnAll pvs ([], 0))) = 2 \<and>
         map population (fst (spawnAll pvs ([], 0))) = [MAX_BATCH_VERTS, 1] \<and>
         snd (spawnAll pvs ([], 0)) = MAX_BATCH_VERTS + 1"
  using spawnAll_overflow [OF assms] by auto

text \<open>1001 spawns of the same particle.\<close>

theorem spawn_overflow_witness:
  "length (replicate 1001 ((Fin 400, Fin 300), (Fin 30, Fin 0))) = nat MAX_BATCH_VERTS + 1 \<and>
   length (fst (spawnAll (replicate 1001 ((Fin 400, Fin 300), (Fin 30, Fin 0))) ([], 0))) = 2 \<and>
   map population (fst (spawnAll (replicate 1001 ((Fin 400, Fin 300), (Fin 30, Fin 0))) ([], 0)))
     = [1000, 1]"
proof -
  have a: "length (replicate 1001 ((Fin 400, Fin 300), (Fin 30, Fin 0))) = nat MAX_BATCH_VERTS + 1"
    by (simp add: MAX_BATCH_VERTS_def)
  from spawn_overflow [OF a] show ?thesis using a by (simp add: MAX_BATCH_VERTS_def)
qed

section \<open>The population invariant\<close>












section \<open>A field at the position of the particle\<close>

lemma ranged_zero: "ranged 0 = Fin 0"
  by (simp add: ranged_def)



lemma fdiv_NaN_right: "fdiv x NaN = NaN"
  by (cases x) simp_all






lemma survivors_split:
  assumes "k < n" "inside bnd b k"
  shows "survivors bnd b n = survivors bnd b k @ k # filter (inside bnd b) [Suc k ..< n]"
proof -
  have "[0 ..< n] = [0 ..< k] @ k # [Suc k ..< n]"
    using assms(1) by (metis upt_add_eq_append zero_le le_add_diff_inverse less_imp_le
        upt_conv_Cons)
  then show ?thesis using assms(2) by (simp add: survivors_def)
qed

lemma survivors_nth:
  assumes "k < n" "inside bnd b k"
  shows "length (survivors bnd b k) < length (survivors bnd b n)"
    and "survivors bnd b n ! length (survivors bnd b k) = k"
  using survivors_split [OF assms] by simp_all

lemma updateBatch_slot:
  assumes "wf_batch b" "k < nat (population b)" "inside bnd b k"
  shows "length (survivors bnd b k) < nat (population (fst (updateBatch bnd gs h (b, pc))))"
    and "vertices (fst (updateBatch bnd gs h (b, pc))) ! length (survivors bnd b k)
           = newVertex h b k"
    and "velocities (fst (updateBatch bnd gs h (b, pc))) ! length (survivors bnd b k)
           = newVelocity gs h b k"
    and "acceleration (fst (updateBatch bnd gs h (b, pc))) ! k = newForce gs h b k"
proof -
  let ?p = "nat (population b)"
  let ?k' = "length (survivors bnd b k)"
  let ?b' = "fst (updateBatch bnd gs h (b, pc))"
  from updateBatch_char [OF assms(1), of bnd gs h pc] obtain b' where
    u: "updateBatch bnd gs h (b, pc) = (b', pc - int (length (leavers bnd b ?p)))"
    and pop: "population b' = population b - int (length (leavers bnd b ?p))"
    and tv: "take (nat (population b')) (vertices b') = map (newVertex h b) (survivors bnd b ?p)"
    and tw: "take (nat (population b')) (velocities b') =
               map (newVelocity gs h b) (survivors bnd b ?p)"
    and ac: "\<forall>j. acceleration b' ! j =
        (if j < ?p \<and> inside bnd b j then newForce gs h b j else acceleration b ! j)"
    and len: "length (vertices b') = length (vertices b)"
    by blast
  have b': "?b' = b'" by (simp add: u)
  have "length (survivors bnd b ?p) + length (leavers bnd b ?p) = ?p"
    unfolding survivors_def leavers_def
    using sum_length_filter_compl [of "inside bnd b" "[0 ..< ?p]"] by simp
  moreover have "0 \<le> population b" using assms(1) by (simp add: wf_batch_def)
  ultimately have np: "nat (population b') = length (survivors bnd b ?p)"
    using pop by linarith
  have lt: "?k' < length (survivors bnd b ?p)" and nth: "survivors bnd b ?p ! ?k' = k"
    using survivors_nth [OF assms(2,3)] by simp_all
  show "?k' < nat (population ?b')" using lt np b' by simp
  have "vertices b' ! ?k' = take (nat (population b')) (vertices b') ! ?k'"
    using lt np by simp
  also have "\<dots> = newVertex h b k" using lt nth by (simp add: tv)
  finally show "vertices ?b' ! ?k' = newVertex h b k" by (simp add: b')
  have "velocities b' ! ?k' = take (nat (population b')) (velocities b') ! ?k'"
    using lt np by simp
  also have "\<dots> = newVelocity gs h b k" using lt nth by (simp add: tw)
  finally show "velocities ?b' ! ?k' = newVelocity gs h b k" by (simp add: b')
  show "acceleration ?b' ! k = newForce gs h b k"
    using ac assms(2,3) by (simp add: b')
qed





section \<open>The integration step in a pass\<close>

lemma ranged_id:
  assumes "A = 2 ^ 60" "1 / (A * A) \<le> \<bar>x\<bar>" "\<bar>x\<bar> \<le> A * A"
  shows "ranged x = Fin x"
proof -
  have AA: "A * A = 2 ^ 120" by (simp add: assms(1))
  have "(2::real) ^ 120 < 2 ^ 128 - 2 ^ 103" by simp
  moreover have "(1::real) / 2 ^ 150 < 1 / 2 ^ 120" by simp
  ultimately show ?thesis using assms(2,3) unfolding AA by (simp add: ranged_def)
qed

lemma mid_range:
  assumes A: "(1::real) \<le> A" and x: "1 / A \<le> x" "x \<le> A"
  shows "1 / (A * A) \<le> x" "x \<le> A * A"
proof -
  have A0: "0 < A" using A by simp
  have "1 / (A * A) \<le> 1 / A" using A A0 by (simp add: field_simps)
  then show "1 / (A * A) \<le> x" using x(1) by simp
  have "A \<le> A * A" using A A0 by simp
  then show "x \<le> A * A" using x(2) by simp
qed

lemma prod_range:
  assumes A: "(1::real) \<le> A" and x: "1 / A \<le> x" "x \<le> A" and y: "1 / A \<le> y" "y \<le> A"
  shows "1 / (A * A) \<le> x * y" "x * y \<le> A * A"
proof -
  have A0: "0 < A" using A by simp
  have "0 < 1 / A" using A0 by simp
  then have x0: "0 \<le> x" and y0: "0 \<le> y" using x(1) y(1) by linarith+
  have "(1 / A) * (1 / A) \<le> x * y" using x(1) y(1) A0 x0 y0 by (intro mult_mono) simp_all
  then show "1 / (A * A) \<le> x * y" by simp
  show "x * y \<le> A * A" using x(2) y(2) x0 y0 A0 by (intro mult_mono) simp_all
qed

lemma inv_range:
  assumes A: "(1::real) \<le> A" and x: "1 / A \<le> x" "x \<le> A"
  shows "0 < x" "1 / A \<le> 1 / x" "1 / x \<le> A"
proof -
  have A0: "0 < A" using A by simp
  then have "0 < 1 / A" by simp
  then show x0: "0 < x" using x(1) by linarith
  show "1 / A \<le> 1 / x" using x(2) x0 A0 by (simp add: frac_le)
  have "1 \<le> A * x" using x(1) A0 by (simp add: field_simps)
  then show "1 / x \<le> A" using x0 by (simp add: field_simps)
qed

lemma cornerForce:
  assumes d: "1 / 2 ^ 60 \<le> d" "d \<le> 2 ^ 60"
    and I: "I = 0 \<or> (1 / 2 ^ 60 \<le> \<bar>I\<bar> \<and> \<bar>I\<bar> \<le> 2 ^ 60)"
  shows "totalGForce [\<lparr>origin = (Fin 0, Fin 0), intensity = Fin I\<rparr>] (Fin d, Fin 0)
           = (Fin (- I / d), Fin 0)"
proof -
  define A :: real where "A = 2 ^ 60"
  have A: "1 \<le> A" by (simp add: A_def)
  have dA: "1 / A \<le> d" "d \<le> A" using d by (simp_all add: A_def)
  note id = ranged_id [OF A_def]
  have d0: "0 < d" and inv: "1 / A \<le> 1 / d" "1 / d \<le> A"
    using inv_range [OF A dA] by simp_all
  have r1: "ranged (- d) = Fin (- d)"
    using mid_range [OF A dA] d0 by (intro id) simp_all
  have r2: "ranged (d * d) = Fin (d * d)"
    using prod_range [OF A dA dA] d0 by (intro id) simp_all
  have q: "- d / (d * d) = - (1 / d)" using d0 by (simp add: field_simps)
  have r3: "ranged (- (1 / d)) = Fin (- (1 / d))"
    using mid_range [OF A inv] d0 by (intro id) simp_all
  have r4: "ranged (- (1 / d) * I) = Fin (- (1 / d) * I)"
  proof (cases "I = 0")
    case True then show ?thesis by (simp add: ranged_zero)
  next
    case False
    with I have Ib: "1 / A \<le> \<bar>I\<bar>" "\<bar>I\<bar> \<le> A" by (simp_all add: A_def)
    have ab: "\<bar>- (1 / d) * I\<bar> = (1 / d) * \<bar>I\<bar>" using d0 by (simp add: abs_mult)
    have "1 / (A * A) \<le> (1 / d) * \<bar>I\<bar>" "(1 / d) * \<bar>I\<bar> \<le> A * A"
      by (rule prod_range [OF A inv Ib])+
    then show ?thesis unfolding ab [symmetric] by (rule id)
  qed
  have e: "- (1 / d) * I = - I / d" by simp
  have r5: "ranged (- I / d) = Fin (- I / d)" using r4 unfolding e .
  have f1: "fsub (Fin 0) (Fin d) = Fin (- d)" by (simp add: fsub_def r1)
  have f2: "fsub (Fin 0) (Fin 0) = Fin 0" by (simp add: fsub_def ranged_zero)
  have f3: "fadd (fmul (Fin (- d)) (Fin (- d))) (fmul (Fin 0) (Fin 0)) = Fin (d * d)"
    by (simp add: ranged_zero r2)
  have f4: "fdiv (Fin (- d)) (Fin (d * d)) = Fin (- (1 / d))"
    using d0 by (simp add: q r3)
  have f5: "fdiv (Fin 0) (Fin (d * d)) = Fin 0" using d0 by (simp add: ranged_zero)
  have f6: "fmul (Fin (- (1 / d))) (Fin I) = Fin (- I / d)" using r4 by (simp only: fmul.simps e)
  have f7: "fmul (Fin 0) (Fin I) = Fin 0" by (simp add: ranged_zero)
  have f8: "fadd (Fin 0) (Fin (- I / d)) = Fin (- I / d)" using r5 by simp
  have f9: "fadd (Fin 0) (Fin 0) = Fin 0" by (simp add: ranged_zero)
  show ?thesis
    by (simp only: totalGForce_def fieldForce_def vzero_def vadd_def vsub_def vdiv_def vmul_def
          Let_def foldl.simps fst_conv snd_conv gField.simps f1 f2 f3 f4 f5 f6 f7 f8 f9)
qed

text \<open>
  C5, as the code has it. For every slot \<open>k\<close> of a well-formed batch that a pass finds
  inside the bounds, with \<open>p\<close>, \<open>v\<close>, \<open>a\<close> the position, velocity and acceleration in that
  slot before the pass: the particle survives, at the index \<open>k'\<close> that counts the survivors
  below it; its position is \<open>p' = p + (v\<cdot>dt + (a\<cdot>dt)\<cdot>dt)\<close>; the force \<open>F\<close> is accumulated over
  the fields at that new position, each field adding \<open>(r / r2)\<cdot>intensity\<close> with
  \<open>r = origin - p'\<close> and \<open>r2 = r.x\<cdot>r.x + r.y\<cdot>r.y\<close>; its velocity is \<open>v + (0.5\<cdot>(a + F))\<cdot>dt\<close>;
  and \<open>F\<close> is stored in the acceleration slot \<open>k\<close> at which the particle was processed. All
  operations are those of the program's \<open>float\<close>. For a single field at (0, 0) with
  intensity \<open>I\<close> and a particle at \<open>(d, 0)\<close> the force is \<open>(- I / d, 0)\<close> when \<open>d\<close> is a power of
  two and \<open>d\<close> and \<open>I\<close> are of magnitude between \<open>2\<^sup>-\<^sup>6\<^sup>0\<close> and \<open>2\<^sup>6\<^sup>0\<close>, where no operation of
  the computation rounds or leaves the range of the format.
\<close>

theorem pass_integrates_particles_found_inside:
  assumes "wf_batch b" "k < nat (population b)" "bnd (position (vertices b ! k))"
  shows "(let b' = fst (updateBatch bnd gs h (b, pc));
              k' = length (survivors bnd b k);
              p = position (vertices b ! k);
              v = velocities b ! k;
              a = acceleration b ! k;
              p' = vadd p (vadd (vmul v h) (vmul (vmul a h) h));
              F = totalGForce gs p'
          in k' < nat (population b') \<and>
             position (vertices b' ! k') = p' \<and>
             velocities b' ! k' = vadd v (vmul (smul (Fin (1/2)) (vadd a F)) h) \<and>
             acceleration b' ! k = F) \<and>
         totalGForce gs q =
           foldl (\<lambda>tot g. let r = vsub (origin g) q;
                               r2 = fadd (fmul (fst r) (fst r)) (fmul (snd r) (snd r))
                           in vadd tot (vmul (vdiv r r2) (intensity g))) vzero gs \<and>
         ((\<exists>n::int. d = 2 powi n) \<and> 1 / 2 ^ 60 \<le> d \<and> d \<le> 2 ^ 60 \<and>
          (I = 0 \<or> 1 / 2 ^ 60 \<le> \<bar>I\<bar> \<and> \<bar>I\<bar> \<le> 2 ^ 60) \<longrightarrow>
          totalGForce [\<lparr>origin = (Fin 0, Fin 0), intensity = Fin I\<rparr>] (Fin d, Fin 0)
            = (Fin (- I / d), Fin 0))"
proof -
  have ins: "inside bnd b k" using assms(3) by (simp add: inside_def)
  note slot = updateBatch_slot [OF assms(1,2) ins, of gs h pc]
  have pass: "(let b' = fst (updateBatch bnd gs h (b, pc));
              k' = length (survivors bnd b k);
              p = position (vertices b ! k);
              v = velocities b ! k;
              a = acceleration b ! k;
              p' = vadd p (vadd (vmul v h) (vmul (vmul a h) h));
              F = totalGForce gs p'
          in k' < nat (population b') \<and>
             position (vertices b' ! k') = p' \<and>
             velocities b' ! k' = vadd v (vmul (smul (Fin (1/2)) (vadd a F)) h) \<and>
             acceleration b' ! k = F)"
    using slot
    by (simp add: Let_def newVertex_def newVelocity_def newForce_def newPosition_def)
  have sum: "totalGForce gs q =
           foldl (\<lambda>tot g. let r = vsub (origin g) q;
                               r2 = fadd (fmul (fst r) (fst r)) (fmul (snd r) (snd r))
                           in vadd tot (vmul (vdiv r r2) (intensity g))) vzero gs"
    by (simp add: totalGForce_def fieldForce_def Let_def)
  have law: "totalGForce [\<lparr>origin = (Fin 0, Fin 0), intensity = Fin I\<rparr>] (Fin d, Fin 0)
            = (Fin (- I / d), Fin 0)"
    if "1 / 2 ^ 60 \<le> d" "d \<le> 2 ^ 60" "I = 0 \<or> 1 / 2 ^ 60 \<le> \<bar>I\<bar> \<and> \<bar>I\<bar> \<le> 2 ^ 60"
    using that by (intro cornerForce) auto
  show ?thesis using pass sum law by blast
qed

text \<open>
  Slot 1 of \<open>movingBatch\<close> with the field \<open>sideField\<close>, and a field of intensity 500 seen
  from (4, 0).
\<close>

theorem pass_integrates_particles_found_inside_witness:
  "wf_batch movingBatch \<and> 1 < nat (population movingBatch) \<and>
   W_DIM (position (vertices movingBatch ! 1)) \<and>
   velocities movingBatch ! 1 = (Fin 60, Fin 120) \<and>
   acceleration movingBatch ! 1 = (Fin 3600, Fin 7200) \<and>
   population (fst (updateBatch W_DIM [sideField] tickSeconds (movingBatch, 2))) = 1 \<and>
   position (vertices (fst (updateBatch W_DIM [sideField] tickSeconds (movingBatch, 2))) ! 0)
     = (Fin 102, Fin 304) \<and>
   velocities (fst (updateBatch W_DIM [sideField] tickSeconds (movingBatch, 2))) ! 0
     = (Fin (1801 / 20), Fin (2701 / 15)) \<and>
   acceleration (fst (updateBatch W_DIM [sideField] tickSeconds (movingBatch, 2))) ! 1
     = (Fin 6, Fin 8) \<and>
   totalGForce [\<lparr>origin = (Fin 0, Fin 0), intensity = Fin 500\<rparr>] (Fin 4, Fin 0)
     = (Fin (- 125), Fin 0)"
proof -
  have w: "wf_batch movingBatch"
    by (simp add: movingBatch_def placed_def wf_batch_def newBatch_def MAX_BATCH_VERTS_def)
  have k: "1 < nat (population movingBatch)"
    by (simp add: movingBatch_def placed_def newBatch_def)
  have i: "W_DIM (position (vertices movingBatch ! 1))"
    by (simp add: movingBatch_def placed_def sample_eval)
  have v: "position (vertices movingBatch ! Suc 0) = (Fin 100, Fin 300)"
    "velocities movingBatch ! Suc 0 = (Fin 60, Fin 120)"
    "acceleration movingBatch ! Suc 0 = (Fin 3600, Fin 7200)"
    by (simp_all add: movingBatch_def placed_def newBatch_def MAX_BATCH_VERTS_def)
  have s: "survivors W_DIM movingBatch (Suc 0) = []"
    by (simp add: survivors_def inside_def movingBatch_def placed_def sample_eval)
  have l: "leavers W_DIM movingBatch 2 = [0]"
    by (simp add: leavers_def inside_def movingBatch_def placed_def sample_eval)
  have p: "population (fst (updateBatch W_DIM [sideField] tickSeconds (movingBatch, 2))) = 1"
    using updateBatch_char [OF w, of W_DIM "[sideField]" tickSeconds 2] l
    by (auto simp: movingBatch_def placed_def newBatch_def)
  have n: "\<exists>n::int. (4::real) = 2 powi n"
    by (rule exI [of _ 2]) simp
  have pos: "vadd (Fin 100, Fin 300)
       (vadd (vmul (Fin 60, Fin 120) tickSeconds)
          (vmul (vmul (Fin 3600, Fin 7200) tickSeconds) tickSeconds)) = (Fin 102, Fin 304)"
    by (simp add: vadd_def vmul_def tickSeconds_def ranged_def)
  have frc: "totalGForce [sideField] (Fin 102, Fin 304) = (Fin 6, Fin 8)"
    by (simp add: sideField_def sample_eval)
  have vel: "vadd (Fin 60, Fin 120)
       (vmul (smul (Fin (1/2)) (vadd (Fin 3600, Fin 7200) (Fin 6, Fin 8))) tickSeconds)
         = (Fin (1801 / 20), Fin (2701 / 15))"
    by (simp add: vadd_def vmul_def smul_def tickSeconds_def ranged_def)
  from pass_integrates_particles_found_inside [OF w k, where bnd = W_DIM, OF i,
      of "[sideField]" tickSeconds 2 "(Fin 0, Fin 0)" 4 500]
  show ?thesis using w k i n p by (simp add: Let_def v s pos frc vel)
qed

text \<open>
  C5 as the specification words it fails: for the particle of \<open>tinySpawned\<close>, inside the
  bounds at \<open>(d, 0)\<close> with \<open>d = 2\<^sup>-\<^sup>1\<^sup>0\<^sup>0\<close>, and the field of intensity 500 at (0, 0), the
  square \<open>d\<cdot>d\<close> underflows to zero and the force the pass stores is \<open>(-\<infinity>, NaN)\<close>, not
  \<open>(- 500 / d, 0)\<close>.
\<close>

theorem force_law_counterexample:
  "position (vertices (hd (fst tinySpawned)) ! 0) = (Fin (1 / 2 ^ 100), Fin 0) \<and>
   W_DIM (position (vertices (hd (fst tinySpawned)) ! 0)) \<and>
   position (vertices (fst (updateBatch W_DIM [cornerField] tickSeconds
       (hd (fst tinySpawned), snd tinySpawned))) ! 0) = (Fin (1 / 2 ^ 100), Fin 0) \<and>
   acceleration (fst (updateBatch W_DIM [cornerField] tickSeconds
       (hd (fst tinySpawned), snd tinySpawned))) ! 0 = (NInf, NaN) \<and>
   totalGForce [cornerField] (Fin (1 / 2 ^ 100), Fin 0) = (NInf, NaN)"
  by (simp add: tinySpawned_def cornerField_def sample_eval)

section \<open>The live slots hold the live particles\<close>












section \<open>The threads reach the sequential pass\<close>

lemma START_le_END: "tid < T \<Longrightarrow> START T M tid \<le> END T M tid"
proof -
  assume t: "tid < T"
  have "STEP T M * tid \<le> STEP T M * T" using t by simp
  also have "\<dots> \<le> M" by (simp add: STEP_def)
  finally show ?thesis using t by (auto simp: START_def END_eq)
qed

lemma END_le: "tid < T \<Longrightarrow> END T M tid \<le> M"
proof -
  assume t: "tid < T"
  have "STEP T M * (tid + 1) \<le> STEP T M * T" using t by (intro mult_le_mono2) simp
  also have "\<dots> \<le> M" by (simp add: STEP_def)
  finally show ?thesis using t by (auto simp: END_eq)
qed

lemma range_owner:
  assumes "tid < T" "tid' < T" "START T M tid \<le> j" "j < END T M tid"
    "START T M tid' \<le> j" "j < END T M tid'"
  shows "tid = tid'"
proof (rule ccontr)
  assume "tid \<noteq> tid'"
  from ranges_disjoint' [OF this assms(1,2), of M] assms(3-6)
  show False by (auto simp: workerRange_def)
qed

lemma range_covered:
  assumes "1 \<le> T" "j < M"
  shows "\<exists>tid<T. START T M tid \<le> j \<and> j < END T M tid"
proof -
  have "j \<in> set (concat (map (workerRange T M) [0 ..< T]))"
    using assms by (simp only: ranges_cover) simp
  then show ?thesis by (auto simp: workerRange_def)
qed

lemma batchResult_env:
  "bounds e = bounds env \<Longrightarrow> gravFields e = gravFields env \<Longrightarrow>
   batchResult e h b = batchResult env h b"
  by (simp add: batchResult_def)

lemma tinvI:
  assumes "bounds (wenv s) = bounds env" "gravFields (wenv s) = gravFields env"
    "length (particles (wenv s)) = length (particles env)"
    "\<And>tid j. tid < T \<Longrightarrow> START T (length (particles env)) tid \<le> j \<Longrightarrow>
              j < END T (length (particles env)) tid \<Longrightarrow>
        particles (wenv s) ! j =
          (if finished s tid j then batchResult env h (particles env ! j)
           else particles env ! j)"
    "\<And>tid k. workers s tid = Running k \<Longrightarrow>
        tid < T \<and> START T (length (particles env)) tid \<le> k \<and>
        k \<le> END T (length (particles env)) tid"
    "\<And>tid. workers s tid = Signalled \<Longrightarrow> tid < T"
    "\<And>tid. workers s tid = Idle \<longleftrightarrow> started T s \<le> tid"
    "started T s \<le> T"
    "caller s \<noteq> Returned \<Longrightarrow> threadSignals s = card {tid. workers s tid = Signalled}"
    "caller s = Returned \<Longrightarrow> threadSignals s = 0 \<and> (\<forall>tid<T. workers s tid = Signalled)"
  shows "tinv T h env s"
  unfolding tinv_def using assms by blast

lemma tinvD:
  assumes "tinv T h env s"
  shows "bounds (wenv s) = bounds env" "gravFields (wenv s) = gravFields env"
    "length (particles (wenv s)) = length (particles env)"
    "\<And>tid j. tid < T \<Longrightarrow> START T (length (particles env)) tid \<le> j \<Longrightarrow>
              j < END T (length (particles env)) tid \<Longrightarrow>
        particles (wenv s) ! j =
          (if finished s tid j then batchResult env h (particles env ! j)
           else particles env ! j)"
    "\<And>tid k. workers s tid = Running k \<Longrightarrow>
        tid < T \<and> START T (length (particles env)) tid \<le> k \<and>
        k \<le> END T (length (particles env)) tid"
    "\<And>tid. workers s tid = Signalled \<Longrightarrow> tid < T"
    "\<And>tid. workers s tid = Idle \<longleftrightarrow> started T s \<le> tid"
    "started T s \<le> T"
    "caller s \<noteq> Returned \<Longrightarrow> threadSignals s = card {tid. workers s tid = Signalled}"
    "caller s = Returned \<Longrightarrow> threadSignals s = 0 \<and> (\<forall>tid<T. workers s tid = Signalled)"
  using assms unfolding tinv_def by blast+

lemma tinv_initial: "tinv T h env (initial env c)"
  by (rule tinvI) (simp_all add: initial_def finished_def started_def)

lemma tinv_start_thread:
  assumes inv: "tinv T h env s" and c: "caller s = Spawning i" and i: "i < T"
  shows "tinv T h env (s\<lparr>caller := Spawning (i + 1),
            workers := (workers s)(i := Running (START T (length (particles (wenv s))) i))\<rparr>)"
    (is "tinv T h env ?s'")
proof -
  let ?M = "length (particles env)"
  note d = tinvD [OF inv]
  have st: "started T s = i" using c by (simp add: started_def)
  have wi: "workers s i = Idle" using d(7) [of i] st by simp
  have w': "workers ?s' = (workers s)(i := Running (START T ?M i))" by (simp add: d(3))
  show ?thesis
  proof (rule tinvI)
    show "bounds (wenv ?s') = bounds env" "gravFields (wenv ?s') = gravFields env"
      "length (particles (wenv ?s')) = ?M" using d(1-3) by simp_all
  next
    fix tid j assume a: "tid < T" "START T ?M tid \<le> j" "j < END T ?M tid"
    have "finished ?s' tid j = finished s tid j"
      using a(2) wi by (cases "tid = i") (simp_all add: finished_def d(3))
    then show "particles (wenv ?s') ! j =
          (if finished ?s' tid j then batchResult env h (particles env ! j)
           else particles env ! j)" using d(4) [OF a] by simp
  next
    fix tid k assume "workers ?s' tid = Running k"
    then show "tid < T \<and> START T ?M tid \<le> k \<and> k \<le> END T ?M tid"
      using d(5) [of tid k] i START_le_END [OF i, of ?M]
      by (cases "tid = i") (simp_all add: d(3))
  next
    fix tid assume "workers ?s' tid = Signalled"
    then show "tid < T" using d(6) [of tid] by (cases "tid = i") simp_all
  next
    fix tid show "workers ?s' tid = Idle \<longleftrightarrow> started T ?s' \<le> tid"
      using d(7) [of tid] st by (cases "tid = i") (auto simp: started_def)
  next
    show "started T ?s' \<le> T" using i by (simp add: started_def)
  next
    have "{tid. workers ?s' tid = Signalled} = {tid. workers s tid = Signalled}"
      using wi by auto
    then show "threadSignals ?s' = card {tid. workers ?s' tid = Signalled}"
      using d(9) c by simp
  next
    assume "caller ?s' = Returned"
    then show "threadSignals ?s' = 0 \<and> (\<forall>tid<T. workers ?s' tid = Signalled)" by simp
  qed
qed

lemma tinv_begin_wait:
  assumes inv: "tinv T h env s" and c: "caller s = Spawning i" and i: "\<not> i < T"
  shows "tinv T h env (s\<lparr>caller := Waiting\<rparr>)" (is "tinv T h env ?s'")
proof -
  note d = tinvD [OF inv]
  have st: "started T s = i" using c by (simp add: started_def)
  with d(8) i have iT: "i = T" by simp
  have st': "started T ?s' = started T s" using st iT by (simp add: started_def)
  have fin: "finished ?s' tid j = finished s tid j" for tid j by (simp add: finished_def)
  show ?thesis
  proof (rule tinvI)
    show "bounds (wenv ?s') = bounds env" "gravFields (wenv ?s') = gravFields env"
      "length (particles (wenv ?s')) = length (particles env)" using d(1-3) by simp_all
  next
    fix tid j assume a: "tid < T" "START T (length (particles env)) tid \<le> j"
      "j < END T (length (particles env)) tid"
    show "particles (wenv ?s') ! j =
          (if finished ?s' tid j then batchResult env h (particles env ! j)
           else particles env ! j)" using d(4) [OF a] by (simp add: fin)
  next
    fix tid k assume "workers ?s' tid = Running k"
    then show "tid < T \<and> START T (length (particles env)) tid \<le> k \<and>
        k \<le> END T (length (particles env)) tid" using d(5) [of tid k] by simp
  next
    fix tid assume "workers ?s' tid = Signalled"
    then show "tid < T" using d(6) [of tid] by simp
  next
    fix tid show "workers ?s' tid = Idle \<longleftrightarrow> started T ?s' \<le> tid"
      using d(7) [of tid] by (simp add: st')
  next
    show "started T ?s' \<le> T" using d(8) by (simp add: st')
  next
    show "threadSignals ?s' = card {tid. workers ?s' tid = Signalled}" using d(9) c by simp
  next
    assume "caller ?s' = Returned"
    then show "threadSignals ?s' = 0 \<and> (\<forall>tid<T. workers ?s' tid = Signalled)" by simp
  qed
qed

lemma tinv_signal:
  assumes inv: "tinv T h env s" and w: "workers s tid = Running j"
    and e: "\<not> j < END T (length (particles (wenv s))) tid"
  shows "tinv T h env (s\<lparr>threadSignals := threadSignals s + 1,
            workers := (workers s)(tid := Signalled)\<rparr>)" (is "tinv T h env ?s'")
proof -
  let ?M = "length (particles env)"
  note d = tinvD [OF inv]
  from d(5) [OF w] have r: "tid < T" "START T ?M tid \<le> j" "j \<le> END T ?M tid" by simp_all
  with e d(3) have j: "j = END T ?M tid" by simp
  have nr: "caller s \<noteq> Returned"
  proof
    assume "caller s = Returned"
    with d(10) r(1) have "workers s tid = Signalled" by simp
    with w show False by simp
  qed
  note d7 = d(7) [unfolded started_def] and d8 = d(8) [unfolded started_def]
  show ?thesis
  proof (rule tinvI)
    show "bounds (wenv ?s') = bounds env" "gravFields (wenv ?s') = gravFields env"
      "length (particles (wenv ?s')) = ?M" using d(1-3) by simp_all
  next
    fix t k assume a: "t < T" "START T ?M t \<le> k" "k < END T ?M t"
    have "finished ?s' t k = finished s t k"
      using a(3) w j by (cases "t = tid") (simp_all add: finished_def)
    then show "particles (wenv ?s') ! k =
          (if finished ?s' t k then batchResult env h (particles env ! k)
           else particles env ! k)" using d(4) [OF a] by simp
  next
    fix t k assume "workers ?s' t = Running k"
    then show "t < T \<and> START T ?M t \<le> k \<and> k \<le> END T ?M t"
      using d(5) [of t k] by (cases "t = tid") simp_all
  next
    fix t assume "workers ?s' t = Signalled"
    then show "t < T" using d(6) [of t] r(1) by (cases "t = tid") simp_all
  next
    fix t show "workers ?s' t = Idle \<longleftrightarrow> started T ?s' \<le> t"
      using d7 [of t] d7 [of tid] w by (cases "t = tid") (simp_all add: started_def)
  next
    show "started T ?s' \<le> T" using d8 by (simp add: started_def)
  next
    have sub: "{t. workers s t = Signalled} \<subseteq> {..<T}" using d(6) by auto
    then have finS: "finite {t. workers s t = Signalled}" by (rule finite_subset) simp
    have ins: "{t. workers ?s' t = Signalled} = insert tid {t. workers s t = Signalled}"
      by auto
    have notin: "tid \<notin> {t. workers s t = Signalled}" using w by simp
    have "card {t. workers ?s' t = Signalled} = card {t. workers s t = Signalled} + 1"
      unfolding ins using finS notin by simp
    then show "threadSignals ?s' = card {t. workers ?s' t = Signalled}"
      using d(9) [OF nr] by simp
  next
    assume "caller ?s' = Returned"
    with nr show "threadSignals ?s' = 0 \<and> (\<forall>t<T. workers ?s' t = Signalled)" by simp
  qed
qed

lemma all_signalled:
  assumes inv: "tinv T h env s" and c: "caller s \<noteq> Returned" and n: "threadSignals s = T"
  shows "\<forall>t<T. workers s t = Signalled"
proof -
  note d = tinvD [OF inv]
  have sub: "{t. workers s t = Signalled} \<subseteq> {..<T}" using d(6) by auto
  have "card {t. workers s t = Signalled} = card {..<T}" using d(9) [OF c] n by simp
  with sub have "{t. workers s t = Signalled} = {..<T}" by (simp add: card_subset_eq)
  then show ?thesis by auto
qed

lemma tinv_return:
  assumes inv: "tinv T h env s" and c: "caller s = Waiting" and n: "threadSignals s = T"
  shows "tinv T h env (s\<lparr>threadSignals := 0, caller := Returned\<rparr>)" (is "tinv T h env ?s'")
proof -
  note d = tinvD [OF inv]
  have all: "\<forall>t<T. workers s t = Signalled" using all_signalled [OF inv _ n] c by simp
  note d7 = d(7) [unfolded started_def] and d8 = d(8) [unfolded started_def]
  have fin: "finished ?s' tid j = finished s tid j" for tid j by (simp add: finished_def)
  show ?thesis
  proof (rule tinvI)
    show "bounds (wenv ?s') = bounds env" "gravFields (wenv ?s') = gravFields env"
      "length (particles (wenv ?s')) = length (particles env)" using d(1-3) by simp_all
  next
    fix tid j assume a: "tid < T" "START T (length (particles env)) tid \<le> j"
      "j < END T (length (particles env)) tid"
    show "particles (wenv ?s') ! j =
          (if finished ?s' tid j then batchResult env h (particles env ! j)
           else particles env ! j)" using d(4) [OF a] by (simp add: fin)
  next
    fix tid k assume "workers ?s' tid = Running k"
    then show "tid < T \<and> START T (length (particles env)) tid \<le> k \<and>
        k \<le> END T (length (particles env)) tid" using d(5) [of tid k] by simp
  next
    fix tid assume "workers ?s' tid = Signalled"
    then show "tid < T" using d(6) [of tid] by simp
  next
    fix tid show "workers ?s' tid = Idle \<longleftrightarrow> started T ?s' \<le> tid"
      using d7 [of tid] c by (simp add: started_def)
  next
    show "started T ?s' \<le> T" using d8 by (simp add: started_def)
  next
    assume "caller ?s' \<noteq> Returned"
    then show "threadSignals ?s' = card {tid. workers ?s' tid = Signalled}" by simp
  next
    show "threadSignals ?s' = 0 \<and> (\<forall>tid<T. workers ?s' tid = Signalled)" using all by simp
  qed
qed

lemma tinv_process:
  assumes inv: "tinv T h env s" and w: "workers s tid = Running j"
    and e: "j < END T (length (particles (wenv s))) tid"
  shows "tinv T h env (s\<lparr>wenv := fst (processBatch h j (wenv s, counter s)),
                    counter := c',
                    workers := (workers s)(tid := Running (j + 1))\<rparr>)" (is "tinv T h env ?s'")
proof -
  let ?M = "length (particles env)"
  let ?ps = "particles (wenv s)"
  note d = tinvD [OF inv]
  from d(5) [OF w] have r: "tid < T" "START T ?M tid \<le> j" by simp_all
  have jE: "j < END T ?M tid" using e d(3) by simp
  have jM: "j < ?M" using jE END_le [OF r(1), of ?M] by simp
  have nf: "\<not> finished s tid j" using w by (simp add: finished_def)
  have old: "?ps ! j = particles env ! j" using d(4) [OF r(1,2) jE] nf by simp
  have we: "fst (processBatch h j (wenv s, counter s))
              = (wenv s)\<lparr>particles := ?ps[j := batchResult env h (particles env ! j)]\<rparr>"
    by (simp add: processBatch_eq batchResult_env [OF d(1,2)] old)
  have nr: "caller s \<noteq> Returned"
  proof
    assume "caller s = Returned"
    with d(10) r(1) have "workers s tid = Signalled" by simp
    with w show False by simp
  qed
  note d7 = d(7) [unfolded started_def] and d8 = d(8) [unfolded started_def]
  show ?thesis
  proof (rule tinvI)
    show "bounds (wenv ?s') = bounds env" "gravFields (wenv ?s') = gravFields env"
      "length (particles (wenv ?s')) = ?M" using d(1-3) by (simp_all add: we)
  next
    fix t k assume a: "t < T" "START T ?M t \<le> k" "k < END T ?M t"
    show "particles (wenv ?s') ! k =
          (if finished ?s' t k then batchResult env h (particles env ! k)
           else particles env ! k)"
    proof (cases "k = j")
      case True
      with a r jE have "t = tid" by (intro range_owner [of t T tid ?M j]) simp_all
      then have "finished ?s' t k" using True by (simp add: finished_def)
      then show ?thesis using True jM d(3) by (simp add: we)
    next
      case False
      have "finished ?s' t k = finished s t k"
        using False w by (cases "t = tid") (auto simp: finished_def)
      then show ?thesis using d(4) [OF a] False by (simp add: we)
    qed
  next
    fix t k assume "workers ?s' t = Running k"
    then show "t < T \<and> START T ?M t \<le> k \<and> k \<le> END T ?M t"
      using d(5) [of t k] r jE by (cases "t = tid") auto
  next
    fix t assume "workers ?s' t = Signalled"
    then show "t < T" using d(6) [of t] by (cases "t = tid") simp_all
  next
    fix t show "workers ?s' t = Idle \<longleftrightarrow> started T ?s' \<le> t"
      using d7 [of t] d7 [of tid] w by (cases "t = tid") (simp_all add: started_def)
  next
    show "started T ?s' \<le> T" using d8 by (simp add: started_def)
  next
    have "{t. workers ?s' t = Signalled} = {t. workers s t = Signalled}" using w by auto
    then show "threadSignals ?s' = card {t. workers ?s' t = Signalled}"
      using d(9) [OF nr] by simp
  next
    assume "caller ?s' = Returned"
    with nr show "threadSignals ?s' = 0 \<and> (\<forall>t<T. workers ?s' t = Signalled)" by simp
  qed
qed

lemma tinv_step: "tstep T h s s' \<Longrightarrow> tinv T h env s \<Longrightarrow> tinv T h env s'"
proof (induction rule: tstep.induct)
  case (start_thread s i) then show ?case by (intro tinv_start_thread)
next
  case (begin_wait s i) then show ?case by (intro tinv_begin_wait)
next
  case (process s tid j c') then show ?case by (intro tinv_process)
next
  case (signal s tid j) then show ?case by (intro tinv_signal)
next
  case (return s) then show ?case by (intro tinv_return)
qed

lemma tinv_run: "rtranclp (tstep T h) s s' \<Longrightarrow> tinv T h env s \<Longrightarrow> tinv T h env s'"
  by (induction rule: rtranclp_induct) (auto intro: tinv_step)

lemma sequentialPass_world:
  "fst (sequentialPass h (env, c)) =
     env\<lparr>particles := map (\<lambda>j. batchResult env h (particles env ! j))
                          [0 ..< length (particles env)]\<rparr>"
proof -
  have "map (\<lambda>j. if j \<in> set [0 ..< length (particles env)]
                   then batchResult env h (particles env ! j) else particles env ! j)
          [0 ..< length (particles env)]
        = map (\<lambda>j. batchResult env h (particles env ! j)) [0 ..< length (particles env)]"
    by (rule map_cong) simp_all
  then show ?thesis
    using fold_processBatch [of "[0 ..< length (particles env)]" env h c]
    by (simp add: sequentialPass_def)
qed

lemma returned_world:
  assumes T: "1 \<le> T" and inv: "tinv T h env s" and c: "caller s = Returned"
  shows "wenv s = fst (sequentialPass h (env, c0))"
proof -
  let ?M = "length (particles env)"
  note d = tinvD [OF inv]
  have all: "\<forall>t<T. workers s t = Signalled" using d(10) [OF c] by simp
  have nth: "particles (wenv s) ! j = batchResult env h (particles env ! j)" if "j < ?M" for j
  proof -
    from range_covered [OF T that] obtain tid where
      t: "tid < T" "START T ?M tid \<le> j" "j < END T ?M tid" by blast
    have "finished s tid j" using all t(1) by (simp add: finished_def)
    then show ?thesis using d(4) [OF t] by simp
  qed
  have "particles (wenv s) = map (\<lambda>j. batchResult env h (particles env ! j)) [0 ..< ?M]"
    using d(3) nth by (intro nth_equalityI) simp_all
  then show ?thesis
    using d(1,2) by (simp add: sequentialPass_world)
qed

lemma sum_update_less:
  fixes g :: "nat \<Rightarrow> 'a \<Rightarrow> nat"
  assumes "tid < T" "g tid x < g tid (f tid)"
  shows "(\<Sum>t<T. g t ((f(tid := x)) t)) < (\<Sum>t<T. g t (f t))"
proof -
  have m: "tid \<in> {..<T}" using assms(1) by simp
  have "(\<Sum>t<T. g t ((f(tid := x)) t)) = g tid x + (\<Sum>t\<in>{..<T} - {tid}. g t ((f(tid := x)) t))"
    using sum.remove [OF _ m, of "\<lambda>t. g t ((f(tid := x)) t)"] by simp
  also have "(\<Sum>t\<in>{..<T} - {tid}. g t ((f(tid := x)) t)) = (\<Sum>t\<in>{..<T} - {tid}. g t (f t))"
    by (rule sum.cong) simp_all
  also have "g tid x + \<dots> < g tid (f tid) + (\<Sum>t\<in>{..<T} - {tid}. g t (f t))"
    using assms(2) by simp
  also have "\<dots> = (\<Sum>t<T. g t (f t))"
    using sum.remove [OF _ m, of "\<lambda>t. g t (f t)"] by simp
  finally show ?thesis .
qed

lemma stepsLeft_decreases:
  assumes "tstep T h s s'" "tinv T h env s"
  shows "stepsLeft T s' < stepsLeft T s"
  using assms
proof (induction rule: tstep.induct)
  case (start_thread s i)
  let ?M = "length (particles (wenv s))"
  note d = tinvD [OF start_thread.prems]
  have "started T s = i" using start_thread.hyps(1) by (simp add: started_def)
  then have wi: "workers s i = Idle" using d(7) [of i] by simp
  have "END T ?M i \<le> ?M" using END_le [OF start_thread.hyps(2)] .
  then have "workLeft T ?M i (Running (START T ?M i)) < workLeft T ?M i (workers s i)"
    by (simp add: workLeft_def wi)
  from sum_update_less [where g = "workLeft T ?M" and f = "workers s" and tid = i
      and x = "Running (START T ?M i)" and T = T, OF start_thread.hyps(2) this]
  show ?case using start_thread.hyps by (simp add: stepsLeft_def)
next
  case (begin_wait s i)
  note d = tinvD [OF begin_wait.prems]
  then show ?case using begin_wait.hyps by (simp add: stepsLeft_def)
next
  case (process s tid j c')
  let ?M = "length (particles (wenv s))"
  note d = tinvD [OF process.prems]
  from d(5) [OF process.hyps(1)] have t: "tid < T" by simp
  have len: "length (particles (fst (processBatch h j (wenv s, counter s)))) = ?M"
    by (simp add: processBatch_eq)
  have "workLeft T ?M tid (Running (j + 1)) < workLeft T ?M tid (workers s tid)"
    using process.hyps by (simp add: workLeft_def)
  from sum_update_less [where g = "workLeft T ?M" and f = "workers s" and tid = tid
      and x = "Running (j + 1)" and T = T, OF t this]
  show ?case by (simp add: stepsLeft_def len)
next
  case (signal s tid j)
  let ?M = "length (particles (wenv s))"
  note d = tinvD [OF signal.prems]
  from d(5) [OF signal.hyps(1)] have t: "tid < T" by simp
  have "workLeft T ?M tid Signalled < workLeft T ?M tid (workers s tid)"
    using signal.hyps by (simp add: workLeft_def)
  from sum_update_less [where g = "workLeft T ?M" and f = "workers s" and tid = tid
      and x = Signalled and T = T, OF t this]
  show ?case by (simp add: stepsLeft_def)
next
  case (return s)
  then show ?case by (simp add: stepsLeft_def)
qed

lemma step_enabled:
  assumes inv: "tinv T h env s" and c: "caller s \<noteq> Returned"
  shows "\<exists>s'. tstep T h s s'"
proof (cases "caller s")
  case (Spawning i)
  show ?thesis
  proof (cases "i < T")
    case True
    with Spawning show ?thesis by (blast intro: tstep.start_thread)
  next
    case False
    with Spawning show ?thesis by (blast intro: tstep.begin_wait)
  qed
next
  case Waiting
  note d = tinvD [OF inv]
  show ?thesis
  proof (cases "\<exists>tid j. workers s tid = Running j")
    case True
    then obtain tid j where w: "workers s tid = Running j" by blast
    show ?thesis
    proof (cases "j < END T (length (particles (wenv s))) tid")
      case True
      with w show ?thesis by (blast intro: tstep.process)
    next
      case False
      with w show ?thesis by (blast intro: tstep.signal)
    qed
  next
    case False
    have st: "started T s = T" using Waiting by (simp add: started_def)
    have "workers s t = Signalled" if "t < T" for t
    proof (cases "workers s t")
      case Idle
      with d(7) [of t] st that show ?thesis by simp
    next
      case (Running k)
      with False show ?thesis by blast
    next
      case Signalled
      then show ?thesis .
    qed
    moreover have "t < T" if "workers s t = Signalled" for t using d(6) that by simp
    ultimately have "{t. workers s t = Signalled} = {..<T}" by auto
    then have "threadSignals s = T" using d(9) [OF c] by simp
    with Waiting show ?thesis by (blast intro: tstep.return)
  qed
next
  case Returned
  with c show ?thesis by simp
qed

lemma can_return:
  assumes "tinv T h env s"
  shows "\<exists>s'. rtranclp (tstep T h) s s' \<and> caller s' = Returned"
  using assms
proof (induction "stepsLeft T s" arbitrary: s rule: less_induct)
  case less
  show ?case
  proof (cases "caller s = Returned")
    case True
    then show ?thesis by blast
  next
    case False
    from step_enabled [OF less.prems False] obtain s1 where s1: "tstep T h s s1" by blast
    have "stepsLeft T s1 < stepsLeft T s" using s1 less.prems by (rule stepsLeft_decreases)
    moreover have "tinv T h env s1" using s1 less.prems by (rule tinv_step)
    ultimately obtain s' where "rtranclp (tstep T h) s1 s'" "caller s' = Returned"
      using less.hyps by blast
    then show ?thesis using s1 by (blast intro: converse_rtranclp_into_rtranclp)
  qed
qed

lemma updateSystem_world:
  assumes "1 \<le> T"
  shows "map_option fst (updateSystem T h s) = Some (fst (sequentialPass h s))"
proof -
  have "updateSystem T h s = Some (sequentialPass h s)"
    unfolding updateSystem_def using assms by (intro runWorkers_sequential) auto
  then show ?thesis by simp
qed

text \<open>
  C6. For \<open>T \<ge> 1\<close> workers and \<open>M\<close> batches the ranges of the workers, taken in the order
  of the worker indices, are the consecutive pieces of \<open>0, \<dots>, M - 1\<close>: contiguous,
  disjoint and covering; every worker but the last has \<open>M div T\<close> batches and the last
  one ends at \<open>M\<close>. However the steps of the caller and of the workers interleave: when
  \<open>updateSystem\<close> has returned, the world is the world after one sequential pass over all
  batches and the count of signals is reset; from every state of a run the caller can
  still return; and every step brings the return nearer, so no run goes on for ever.
  The function \<open>updateSystem\<close> gives that same world. The global counter is not part of
  the statement: the workers decrement it without synchronisation.
\<close>

theorem workers_refine_sequential_pass:
  assumes "1 \<le> T"
  shows "concat (map (\<lambda>tid. [START T M tid ..< END T M tid]) [0 ..< T]) = [0 ..< M] \<and>
         (\<forall>tid. tid + 1 < T \<longrightarrow> END T M tid - START T M tid = M div T) \<and>
         END T M (T - 1) = M \<and>
         (\<forall>s. rtranclp (tstep T h) (initial env c) s \<and> caller s = Returned \<longrightarrow>
              wenv s = fst (sequentialPass h (env, c)) \<and> threadSignals s = 0) \<and>
         (\<forall>s. rtranclp (tstep T h) (initial env c) s \<longrightarrow>
              (\<exists>s'. rtranclp (tstep T h) s s' \<and> caller s' = Returned)) \<and>
         (\<forall>s s'. rtranclp (tstep T h) (initial env c) s \<and> tstep T h s s' \<longrightarrow>
              stepsLeft T s' < stepsLeft T s) \<and>
         map_option fst (updateSystem T h (env, c)) = Some (fst (sequentialPass h (env, c)))"
proof -
  have inv: "tinv T h env s" if "rtranclp (tstep T h) (initial env c) s" for s
    using that tinv_initial by (rule tinv_run)
  have "concat (map (\<lambda>tid. [START T M tid ..< END T M tid]) [0 ..< T]) = [0 ..< M]"
    using ranges_cover [OF assms(1), of M] by (simp add: workerRange_def [abs_def])
  moreover have "END T M tid - START T M tid = M div T" if "tid + 1 < T" for tid
    using that by (auto simp: END_eq START_def STEP_def)
  moreover have "END T M (T - 1) = M" using assms(1) by (simp add: END_eq)
  moreover have "wenv s = fst (sequentialPass h (env, c)) \<and> threadSignals s = 0"
    if "rtranclp (tstep T h) (initial env c) s" "caller s = Returned" for s
    using returned_world [OF assms inv [OF that(1)] that(2), of c]
      tinvD(10) [OF inv [OF that(1)] that(2)] by simp
  moreover have "\<exists>s'. rtranclp (tstep T h) s s' \<and> caller s' = Returned"
    if "rtranclp (tstep T h) (initial env c) s" for s
    using can_return [OF inv [OF that]] .
  moreover have "stepsLeft T s' < stepsLeft T s"
    if "rtranclp (tstep T h) (initial env c) s" "tstep T h s s'" for s s'
    using stepsLeft_decreases [OF that(2) inv [OF that(1)]] .
  moreover have "map_option fst (updateSystem T h (env, c)) = Some (fst (sequentialPass h (env, c)))"
    using assms by (rule updateSystem_world)
  ultimately show ?thesis by blast
qed

text \<open>Two workers on the two batches of \<open>twoBatches\<close>; five batches for the ranges.\<close>

theorem workers_refine_sequential_pass_witness:
  "(1::nat) \<le> 2 \<and>
   concat (map (\<lambda>tid. [START 2 5 tid ..< END 2 5 tid]) [0 ..< 2]) = [0 ..< 5] \<and>
   END 2 5 0 - START 2 5 0 = 2 \<and> END 2 5 1 = 5 \<and>
   map population (particles twoBatches) = [2, 2] \<and>
   (\<exists>s. rtranclp (tstep 2 tickSeconds) (initial twoBatches 4) s \<and> caller s = Returned \<and>
        wenv s = fst (sequentialPass tickSeconds (twoBatches, 4)) \<and>
        map population (particles (wenv s)) = [1, 1] \<and> threadSignals s = 0) \<and>
   map_option fst (updateSystem 2 tickSeconds (twoBatches, 4)) =
     Some (fst (sequentialPass tickSeconds (twoBatches, 4)))"
proof -
  have a: "(1::nat) \<le> 2" by simp
  note t = workers_refine_sequential_pass [OF a, of 5 tickSeconds twoBatches 4]
  have p0: "map population (particles twoBatches) = [2, 2]"
    by (simp add: twoBatches_def worldOf_def movingBatch_def placed_def twoSpawned_def sample_eval)
  have p1: "map population (particles (fst (sequentialPass tickSeconds (twoBatches, 4)))) = [1, 1]"
    by (simp add: sequentialPass_def processBatch_def twoBatches_def worldOf_def movingBatch_def
          placed_def twoSpawned_def sample_eval)
  from t have "\<exists>s'. rtranclp (tstep 2 tickSeconds) (initial twoBatches 4) s' \<and> caller s' = Returned"
    by blast
  then obtain s where s: "rtranclp (tstep 2 tickSeconds) (initial twoBatches 4) s"
    "caller s = Returned" by blast
  with t have w: "wenv s = fst (sequentialPass tickSeconds (twoBatches, 4))" "threadSignals s = 0"
    by blast+
  have ex: "\<exists>s. rtranclp (tstep 2 tickSeconds) (initial twoBatches 4) s \<and> caller s = Returned \<and>
        wenv s = fst (sequentialPass tickSeconds (twoBatches, 4)) \<and>
        map population (particles (wenv s)) = [1, 1] \<and> threadSignals s = 0"
    using s w p1 by auto
  have r: "concat (map (\<lambda>tid. [START 2 5 tid ..< END 2 5 tid]) [0 ..< 2]) = [0 ..< 5]"
    "END 2 5 0 - START 2 5 0 = 2" "END 2 5 1 = 5"
    using t by (simp_all add: START_def END_def STEP_def)
  have u: "map_option fst (updateSystem 2 tickSeconds (twoBatches, 4)) =
     Some (fst (sequentialPass tickSeconds (twoBatches, 4)))" using t by blast
  show ?thesis using a r p0 ex u by blast
qed

end
